theory Spec2Isabelle
  imports Main "HOL-Library.Word"
begin

section \<open>The fixed-size-class memory pool (namespace Kama_memoryPool, v1 step 3)\<close>

text \<open>
  The embedding follows the header \<^verbatim>\<open>MemoryPool.h\<close> and the file that defines its
  member functions, on an LP64 target: \<^verbatim>\<open>size_t\<close> and every pointer are 64-bit words, \<^verbatim>\<open>int\<close> is a 32-bit
  word read in two's complement, \<^verbatim>\<open>sizeof(Slot)\<close> and \<^verbatim>\<open>sizeof(Slot*)\<close> are 8.
  The null pointer is the address 0. Arithmetic on addresses and sizes wraps modulo
  \<open>2 ^ 64\<close>, as the word operations do.
\<close>

subsection \<open>Types, constants and the conversions between them\<close>

type_synonym addr = "64 word"
type_synonym size_t = "64 word"
type_synonym cint = "32 word"

definition MEMORY_POOL_NUM :: nat where
  "MEMORY_POOL_NUM = 64"

definition SLOT_BASE_SIZE :: nat where
  "SLOT_BASE_SIZE = 8"

definition MAX_SLOT_SIZE :: nat where
  "MAX_SLOT_SIZE = 512"

definition sizeof_Slot :: size_t where
  "sizeof_Slot = 8"

text \<open>An \<^verbatim>\<open>int\<close> used where a \<^verbatim>\<open>size_t\<close> is expected is sign-extended; a
  \<^verbatim>\<open>size_t\<close> stored into an \<^verbatim>\<open>int\<close> keeps its low 32 bits.\<close>

definition int_to_size_t :: "cint \<Rightarrow> size_t" where
  "int_to_size_t i = scast i"

definition size_t_to_int :: "size_t \<Rightarrow> cint" where
  "size_t_to_int n = ucast n"

datatype error =
    BadAlloc              \<comment> \<open>\<^verbatim>\<open>operator new\<close> throws \<^verbatim>\<open>std::bad_alloc\<close>\<close>
  | DivisionByZero        \<comment> \<open>\<^verbatim>\<open>%\<close> with a zero divisor in \<^verbatim>\<open>padPointer\<close>\<close>
  | IndeterminateRead     \<comment> \<open>a \<^verbatim>\<open>next\<close> word is loaded that was never stored\<close>
  | IndexOutOfBounds      \<comment> \<open>\<^verbatim>\<open>memoryPool[index]\<close> outside \<open>0..63\<close>\<close>
  | AssertionFailed       \<comment> \<open>\<^verbatim>\<open>assert(size > 0)\<close> in \<^verbatim>\<open>init\<close>\<close>
  | InvalidDelete         \<comment> \<open>\<^verbatim>\<open>operator delete\<close> of a block that is not live\<close>

subsection \<open>The memory outside the pool objects\<close>

text \<open>
  \<open>next_word\<close> holds the \<^verbatim>\<open>Slot::next\<close> words stored so far (the first word of a
  free slot or of a block). \<open>fresh\<close> lists the addresses that the system allocator
  will hand out, in order; when it is empty \<^verbatim>\<open>operator new\<close> throws. \<open>live\<close> lists
  the blocks handed out and not yet deleted, with the size asked for.
\<close>

record heap =
  next_word :: "addr \<rightharpoonup> addr"
  fresh :: "addr list"
  live :: "(addr \<times> size_t) list"

definition operator_new :: "size_t \<Rightarrow> heap \<Rightarrow> error + (addr \<times> heap)" where
  "operator_new n h =
     (case fresh h of
        [] \<Rightarrow> Inl BadAlloc
      | b # bs \<Rightarrow> Inr (b, h\<lparr>fresh := bs, live := (b, n) # live h\<rparr>))"

definition operator_delete :: "addr \<Rightarrow> heap \<Rightarrow> error + heap" where
  "operator_delete a h =
     (if a \<in> fst ` set (live h)
      then Inr (h\<lparr>live := filter (\<lambda>(b, n). b \<noteq> a) (live h)\<rparr>)
      else Inl InvalidDelete)"

subsection \<open>class MemoryPool\<close>

text \<open>
  The fields carry the names of the members without the trailing underscore
  (\<^verbatim>\<open>SlotSize_\<close> is \<open>SlotSize\<close>). \<open>mutexForBlock\<close> counts how often the
  mutex has been locked.
\<close>

record MemoryPool =
  BlockSize :: cint
  SlotSize :: cint
  firstBlock :: addr
  curSlot :: addr
  lastSlot :: addr
  freeList :: addr
  mutexForBlock :: nat

definition MemoryPool_ctor :: "size_t \<Rightarrow> MemoryPool" where
  "MemoryPool_ctor blockSize =
     \<lparr>BlockSize = size_t_to_int blockSize, SlotSize = 0, firstBlock = 0,
      curSlot = 0, lastSlot = 0, freeList = 0, mutexForBlock = 0\<rparr>"

definition init :: "size_t \<Rightarrow> MemoryPool \<Rightarrow> error + MemoryPool" where
  "init sz p =
     (if sz > 0
      then Inr (p\<lparr>SlotSize := size_t_to_int sz, firstBlock := 0, curSlot := 0,
                  freeList := 0, lastSlot := 0\<rparr>)
      else Inl AssertionFailed)"

definition padPointer :: "addr \<Rightarrow> size_t \<Rightarrow> error + size_t" where
  "padPointer p align =
     (if align = 0 then Inl DivisionByZero
      else let rem = p mod align in Inr (if rem = 0 then 0 else align - rem))"

definition allocateNewBlock :: "MemoryPool \<Rightarrow> heap \<Rightarrow> error + (MemoryPool \<times> heap)" where
  "allocateNewBlock p h =
     (case operator_new (int_to_size_t (BlockSize p)) h of
        Inl e \<Rightarrow> Inl e
      | Inr (Block, h1) \<Rightarrow>
          let h2 = h1\<lparr>next_word := (next_word h1)(Block \<mapsto> firstBlock p)\<rparr>;
              p1 = p\<lparr>firstBlock := Block\<rparr>;
              dataAddr = Block + sizeof_Slot
          in (case padPointer dataAddr (int_to_size_t (SlotSize p1)) of
                Inl e \<Rightarrow> Inl e
              | Inr padSize \<Rightarrow>
                  Inr (p1\<lparr>curSlot := dataAddr + padSize,
                          lastSlot := Block + int_to_size_t (BlockSize p1)
                                         - int_to_size_t (SlotSize p1) + 1\<rparr>, h2)))"

subsection \<open>The free list\<close>

text \<open>
  \<^verbatim>\<open>compare_exchange_weak\<close> on \<open>freeList\<close>: it stores \<open>desired\<close> and succeeds when
  the current value is the expected one and the attempt does not fail spuriously. The
  result is the success flag and the value of \<open>freeList\<close> afterwards.
\<close>

definition compare_exchange_weak :: "bool \<Rightarrow> addr \<Rightarrow> addr \<Rightarrow> addr \<Rightarrow> bool \<times> addr" where
  "compare_exchange_weak spurious current expected desired =
     (if current = expected \<and> \<not> spurious then (True, desired) else (False, current))"

text \<open>
  Both loops retry until the exchange succeeds. In one thread nothing changes
  \<open>freeList\<close> between the load and the exchange, so an attempt fails only spuriously;
  the first argument is the number of spurious failures before the attempt that is not
  disturbed. The \<^verbatim>\<open>catch (...)\<close> of \<^verbatim>\<open>popFreeList\<close> guards an atomic load, which
  throws nothing, and has no branch here.
\<close>

fun pushFreeList :: "nat \<Rightarrow> addr \<Rightarrow> MemoryPool \<Rightarrow> heap \<Rightarrow> bool \<times> MemoryPool \<times> heap" where
  "pushFreeList 0 slot p h =
     (let oldHead = freeList p;
          h1 = h\<lparr>next_word := (next_word h)(slot \<mapsto> oldHead)\<rparr>;
          (ok, head) = compare_exchange_weak False (freeList p) oldHead slot
      in (ok, p\<lparr>freeList := head\<rparr>, h1))"
| "pushFreeList (Suc k) slot p h =
     (let oldHead = freeList p;
          h1 = h\<lparr>next_word := (next_word h)(slot \<mapsto> oldHead)\<rparr>;
          (ok, head) = compare_exchange_weak True (freeList p) oldHead slot
      in if ok then (True, p\<lparr>freeList := head\<rparr>, h1)
         else pushFreeList k slot (p\<lparr>freeList := head\<rparr>) h1)"

fun popFreeList :: "nat \<Rightarrow> MemoryPool \<Rightarrow> heap \<Rightarrow> error + (addr \<times> MemoryPool)" where
  "popFreeList 0 p h =
     (let oldHead = freeList p
      in if oldHead = 0 then Inr (0, p)
         else case next_word h oldHead of
                None \<Rightarrow> Inl IndeterminateRead
              | Some newHead \<Rightarrow>
                  let (ok, head) = compare_exchange_weak False (freeList p) oldHead newHead
                  in Inr (oldHead, p\<lparr>freeList := head\<rparr>))"
| "popFreeList (Suc k) p h =
     (let oldHead = freeList p
      in if oldHead = 0 then Inr (0, p)
         else case next_word h oldHead of
                None \<Rightarrow> Inl IndeterminateRead
              | Some newHead \<Rightarrow>
                  let (ok, head) = compare_exchange_weak True (freeList p) oldHead newHead
                  in if ok then Inr (oldHead, p\<lparr>freeList := head\<rparr>)
                     else popFreeList k (p\<lparr>freeList := head\<rparr>) h)"

subsection \<open>allocate and deallocate\<close>

text \<open>
  \<^verbatim>\<open>curSlot += SlotSize / sizeof(Slot)\<close> is arithmetic on a \<^verbatim>\<open>Slot*\<close>: the
  quotient is taken in \<^verbatim>\<open>size_t\<close> and the address moves by that many slots of
  \<^verbatim>\<open>sizeof(Slot)\<close> bytes.
\<close>

definition allocate :: "nat \<Rightarrow> MemoryPool \<Rightarrow> heap \<Rightarrow> error + (addr \<times> MemoryPool \<times> heap)" where
  "allocate k p h =
     (case popFreeList k p h of
        Inl e \<Rightarrow> Inl e
      | Inr (temp, p1) \<Rightarrow>
          if temp \<noteq> 0 then Inr (temp, p1, h)
          else
            (let p2 = p1\<lparr>mutexForBlock := Suc (mutexForBlock p1)\<rparr>
             in (case (if curSlot p2 \<ge> lastSlot p2 then allocateNewBlock p2 h
                       else Inr (p2, h)) of
                   Inl e \<Rightarrow> Inl e
                 | Inr (p3, h3) \<Rightarrow>
                     Inr (curSlot p3,
                          p3\<lparr>curSlot := curSlot p3
                                + sizeof_Slot * (int_to_size_t (SlotSize p3) div sizeof_Slot)\<rparr>,
                          h3))))"

definition deallocate :: "nat \<Rightarrow> addr \<Rightarrow> MemoryPool \<Rightarrow> heap \<Rightarrow> MemoryPool \<times> heap" where
  "deallocate k ptr p h =
     (if ptr = 0 then (p, h)
      else let (ok, p1, h1) = pushFreeList k ptr p h in (p1, h1))"

subsection \<open>class HashBucket: the table of pools and the router\<close>

text \<open>
  \<open>memoryPool\<close> is the function-local static array of \<^verbatim>\<open>getMemoryPool\<close>: \<open>None\<close>
  until the first call, which constructs \<^verbatim>\<open>MEMORY_POOL_NUM\<close> pools with the default
  block size 4096. \<open>lifetime\<close> records the constructor and destructor calls of the
  typed wrappers, in order.
\<close>

datatype event = Constructed addr | Destroyed addr

record world =
  memoryPool :: "MemoryPool list option"
  memory :: heap
  lifetime :: "event list"

definition memoryPool_array :: "world \<Rightarrow> MemoryPool list" where
  "memoryPool_array w =
     (case memoryPool w of
        None \<Rightarrow> replicate MEMORY_POOL_NUM (MemoryPool_ctor 4096)
      | Some ps \<Rightarrow> ps)"

text \<open>The reference returned by \<^verbatim>\<open>getMemoryPool\<close> is the pool read here and written
  back by \<open>set_pool\<close> after the member call.\<close>

definition getMemoryPool :: "cint \<Rightarrow> world \<Rightarrow> error + (MemoryPool \<times> world)" where
  "getMemoryPool index w =
     (let ps = memoryPool_array w; w1 = w\<lparr>memoryPool := Some ps\<rparr>
      in if 0 \<le> sint index \<and> sint index < int (length ps)
         then Inr (ps ! nat (sint index), w1)
         else Inl IndexOutOfBounds)"

definition set_pool :: "cint \<Rightarrow> MemoryPool \<Rightarrow> world \<Rightarrow> world" where
  "set_pool index p w = w\<lparr>memoryPool := Some ((memoryPool_array w)[nat (sint index) := p])\<rparr>"

function initMemoryPool_from :: "nat \<Rightarrow> world \<Rightarrow> error + world" where
  "initMemoryPool_from i w =
     (if i < MEMORY_POOL_NUM
      then (case getMemoryPool (of_nat i) w of
              Inl e \<Rightarrow> Inl e
            | Inr (p, w1) \<Rightarrow>
                (case init (int_to_size_t ((of_nat i + 1) * of_nat SLOT_BASE_SIZE)) p of
                   Inl e \<Rightarrow> Inl e
                 | Inr p1 \<Rightarrow> initMemoryPool_from (Suc i) (set_pool (of_nat i) p1 w1)))
      else Inr w)"
  by pat_completeness auto
termination
  by (relation "measure (\<lambda>(i, w). MEMORY_POOL_NUM - i)") auto

declare initMemoryPool_from.simps [simp del]

definition initMemoryPool :: "world \<Rightarrow> error + world" where
  "initMemoryPool w = initMemoryPool_from 0 w"

text \<open>\<^verbatim>\<open>getMemoryPool(index).allocate()\<close> and \<^verbatim>\<open>getMemoryPool(index).deallocate(ptr)\<close>.\<close>

definition pool_allocate :: "nat \<Rightarrow> cint \<Rightarrow> world \<Rightarrow> error + (addr \<times> world)" where
  "pool_allocate k index w =
     (case getMemoryPool index w of
        Inl e \<Rightarrow> Inl e
      | Inr (p, w1) \<Rightarrow>
          (case allocate k p (memory w1) of
             Inl e \<Rightarrow> Inl e
           | Inr (a, p1, h1) \<Rightarrow> Inr (a, set_pool index p1 (w1\<lparr>memory := h1\<rparr>))))"

definition pool_deallocate :: "nat \<Rightarrow> cint \<Rightarrow> addr \<Rightarrow> world \<Rightarrow> error + world" where
  "pool_deallocate k index ptr w =
     (case getMemoryPool index w of
        Inl e \<Rightarrow> Inl e
      | Inr (p, w1) \<Rightarrow>
          (let (p1, h1) = deallocate k ptr p (memory w1)
           in Inr (set_pool index p1 (w1\<lparr>memory := h1\<rparr>))))"

definition useMemory :: "nat \<Rightarrow> size_t \<Rightarrow> world \<Rightarrow> error + (addr \<times> world)" where
  "useMemory k sz w =
     (if sz \<le> 0 then Inr (0, w)
      else if sz > of_nat MAX_SLOT_SIZE
      then (case operator_new sz (memory w) of
              Inl e \<Rightarrow> Inl e
            | Inr (a, h1) \<Rightarrow> Inr (a, w\<lparr>memory := h1\<rparr>))
      else pool_allocate k
             (size_t_to_int ((sz + of_nat SLOT_BASE_SIZE - 1) div of_nat SLOT_BASE_SIZE - 1)) w)"

definition freeMemory :: "nat \<Rightarrow> addr \<Rightarrow> size_t \<Rightarrow> world \<Rightarrow> error + world" where
  "freeMemory k ptr sz w =
     (if ptr = 0 then Inr w
      else if sz > of_nat MAX_SLOT_SIZE
      then (case operator_delete ptr (memory w) of
              Inl e \<Rightarrow> Inl e
            | Inr h1 \<Rightarrow> Inr (w\<lparr>memory := h1\<rparr>))
      else pool_deallocate k
             (size_t_to_int ((sz + 7) div of_nat SLOT_BASE_SIZE - 1)) ptr w)"

subsection \<open>newElement and deleteElement\<close>

text \<open>
  The type \<^verbatim>\<open>T\<close> enters through \<^verbatim>\<open>sizeof(T)\<close>; its constructor and destructor
  are the events appended to \<open>lifetime\<close>.
\<close>

definition newElement :: "nat \<Rightarrow> size_t \<Rightarrow> world \<Rightarrow> error + (addr \<times> world)" where
  "newElement k sizeof_T w =
     (case useMemory k sizeof_T w of
        Inl e \<Rightarrow> Inl e
      | Inr (p, w1) \<Rightarrow>
          if p \<noteq> 0 then Inr (p, w1\<lparr>lifetime := lifetime w1 @ [Constructed p]\<rparr>)
          else Inr (p, w1))"

definition deleteElement :: "nat \<Rightarrow> size_t \<Rightarrow> addr \<Rightarrow> world \<Rightarrow> error + world" where
  "deleteElement k sizeof_T p w =
     (if p \<noteq> 0
      then freeMemory k p sizeof_T (w\<lparr>lifetime := lifetime w @ [Destroyed p]\<rparr>)
      else Inr w)"

subsection \<open>Sequences of calls on one pool\<close>

datatype call = Allocate nat | Deallocate nat addr

text \<open>\<open>run\<close> performs the calls in order and collects the addresses returned by
  \<open>allocate\<close>; it stops at the first error.\<close>

fun run :: "call list \<Rightarrow> addr list \<Rightarrow> MemoryPool \<Rightarrow> heap \<Rightarrow> error + (addr list \<times> MemoryPool \<times> heap)" where
  "run [] rs p h = Inr (rs, p, h)"
| "run (Allocate k # cs) rs p h =
     (case allocate k p h of
        Inl e \<Rightarrow> Inl e
      | Inr (a, p1, h1) \<Rightarrow> run cs (rs @ [a]) p1 h1)"
| "run (Deallocate k ptr # cs) rs p h =
     (case deallocate k ptr p h of (p1, h1) \<Rightarrow> run cs rs p1 h1)"

subsection \<open>The system allocator, the caller and the blocks of a pool\<close>

text \<open>
  \<open>slot_size\<close> and \<open>block_size\<close> are the two sizes of a pool as the code uses them,
  converted to \<^verbatim>\<open>size_t\<close>. \<open>blocks\<close> lists the block addresses of the system
  allocator, those handed out and those to come, in the order of the hand-out.
  \<open>apart n\<close> says that blocks of \<open>n\<close> bytes at the listed addresses do not overlap.
  \<open>system_sane n\<close> describes the memory before the pool is used: no \<^verbatim>\<open>next\<close> word
  stored, no block handed out, and the blocks to come lie in the address space without
  overlap. \<open>owned\<close> is the contract of the caller along a sequence of calls:
  \<open>deallocate\<close> is given the null pointer or an address that \<open>allocate\<close> has returned.
\<close>

definition blocks :: "heap \<Rightarrow> addr list" where
  "blocks h = rev (map fst (live h)) @ fresh h"

fun apart :: "nat \<Rightarrow> addr list \<Rightarrow> bool" where
  "apart n [] = True"
| "apart n (b # bs) =
     ((\<forall>c\<in>set bs. unat b + n \<le> unat c \<or> unat c + n \<le> unat b) \<and> apart n bs)"

definition block_size :: "MemoryPool \<Rightarrow> nat" where
  "block_size p = unat (int_to_size_t (BlockSize p))"

definition slot_size :: "MemoryPool \<Rightarrow> nat" where
  "slot_size p = unat (int_to_size_t (SlotSize p))"

definition system_sane :: "nat \<Rightarrow> heap \<Rightarrow> bool" where
  "system_sane n h =
     (next_word h = Map.empty \<and> live h = []
      \<and> (\<forall>b\<in>set (fresh h). unat b + n < 2 ^ 64) \<and> apart n (fresh h))"

fun owned :: "call list \<Rightarrow> addr list \<Rightarrow> MemoryPool \<Rightarrow> heap \<Rightarrow> bool" where
  "owned [] rs p h = True"
| "owned (Allocate k # cs) rs p h =
     (case allocate k p h of
        Inl e \<Rightarrow> True
      | Inr (a, p1, h1) \<Rightarrow> owned cs (rs @ [a]) p1 h1)"
| "owned (Deallocate k ptr # cs) rs p h =
     ((ptr = 0 \<or> ptr \<in> set rs)
      \<and> (case deallocate k ptr p h of (p1, h1) \<Rightarrow> owned cs rs p1 h1))"

text \<open>
  The invariant of a pool together with the addresses \<open>rs\<close> it has returned.
  \<open>inside p h a\<close>: the slot at \<open>a\<close> lies in a block handed out, after the header word.
  \<open>cursor_ok\<close>: the pool has no block yet, or the cursor lies in the current block
  between the header word and the end, and the boundary is the end of the block minus
  the slot size plus 1. \<open>pool_inv\<close> adds: a block holds two slots after padding; the
  blocks do not overlap and do not wrap around; a stored \<^verbatim>\<open>next\<close> word outside the
  block headers is null or a returned address, and so is the head of the free list; the
  cursor and the returned addresses are multiples of the slot size when the slot size
  divides 8 or is a multiple of 8.
\<close>

definition inside :: "MemoryPool \<Rightarrow> heap \<Rightarrow> addr \<Rightarrow> bool" where
  "inside p h a =
     (\<exists>b\<in>fst ` set (live h).
        unat b + 8 \<le> unat a \<and> unat a + slot_size p \<le> unat b + block_size p)"

definition cursor_ok :: "MemoryPool \<Rightarrow> heap \<Rightarrow> bool" where
  "cursor_ok p h =
     ((curSlot p = 0 \<and> lastSlot p = 0)
      \<or> (firstBlock p \<in> fst ` set (live h)
          \<and> unat (firstBlock p) + 8 \<le> unat (curSlot p)
          \<and> unat (curSlot p) \<le> unat (firstBlock p) + block_size p
          \<and> unat (lastSlot p) = unat (firstBlock p) + block_size p - slot_size p + 1))"

definition pool_inv :: "MemoryPool \<Rightarrow> heap \<Rightarrow> addr list \<Rightarrow> bool" where
  "pool_inv p h rs =
     (0 < slot_size p \<and> 2 * slot_size p + 7 \<le> block_size p
      \<and> (\<forall>b\<in>set (blocks h). unat b + block_size p < 2 ^ 64)
      \<and> apart (block_size p) (blocks h)
      \<and> (\<forall>a v. next_word h a = Some v \<longrightarrow> a \<in> set (blocks h) \<or> v = 0 \<or> v \<in> set rs)
      \<and> (freeList p = 0 \<or> freeList p \<in> set rs)
      \<and> (\<forall>a\<in>set rs. inside p h a)
      \<and> cursor_ok p h
      \<and> (8 dvd slot_size p \<or> slot_size p dvd 8 \<longrightarrow>
            slot_size p dvd unat (curSlot p) \<and> (\<forall>a\<in>set rs. slot_size p dvd unat a)))"

subsection \<open>The table after initMemoryPool\<close>

text \<open>\<open>init_state j p\<close> is the pool \<open>p\<close> after \<^verbatim>\<open>init((j + 1) * SLOT_BASE_SIZE)\<close>.
  \<open>registry_ok\<close> says that the table, once constructed, has its
  \<^verbatim>\<open>MEMORY_POOL_NUM\<close> entries; \<open>configured\<close> that it is constructed and that
  entry \<open>i\<close> has the slot size \<open>(i + 1) * SLOT_BASE_SIZE\<close>. \<open>index_of_size\<close> is the
  index expression of \<^verbatim>\<open>useMemory\<close>.\<close>

definition init_state :: "nat \<Rightarrow> MemoryPool \<Rightarrow> MemoryPool" where
  "init_state j p =
     p\<lparr>SlotSize := of_nat ((j + 1) * SLOT_BASE_SIZE), firstBlock := 0, curSlot := 0,
       freeList := 0, lastSlot := 0\<rparr>"

definition registry_ok :: "world \<Rightarrow> bool" where
  "registry_ok w = (length (memoryPool_array w) = MEMORY_POOL_NUM)"

definition configured :: "world \<Rightarrow> bool" where
  "configured w =
     (case memoryPool w of
        None \<Rightarrow> False
      | Some ps \<Rightarrow>
          map SlotSize ps = map (\<lambda>i. of_nat ((i + 1) * SLOT_BASE_SIZE)) [0..<MEMORY_POOL_NUM])"

definition index_of_size :: "size_t \<Rightarrow> cint" where
  "index_of_size sz =
     size_t_to_int ((sz + of_nat SLOT_BASE_SIZE - 1) div of_nat SLOT_BASE_SIZE - 1)"

subsection \<open>Sequences of calls on the router\<close>




subsection \<open>The slots of the pools in the table\<close>



definition pool_ok :: "nat \<Rightarrow> nat \<Rightarrow> MemoryPool \<Rightarrow> addr set \<Rightarrow> addr set \<Rightarrow> bool" where
  "pool_ok n m p G B =
     (block_size p = n \<and> slot_size p = m
      \<and> (\<forall>a\<in>G. \<exists>b\<in>B. unat b + 8 \<le> unat a \<and> unat a + m \<le> unat b + n)
      \<and> (\<forall>a\<in>G. \<forall>c\<in>G. a = c \<or> unat a + m \<le> unat c \<or> unat c + m \<le> unat a)
      \<and> ((curSlot p = 0 \<and> lastSlot p = 0)
         \<or> (firstBlock p \<in> B
            \<and> unat (firstBlock p) + 8 \<le> unat (curSlot p)
            \<and> unat (curSlot p) \<le> unat (firstBlock p) + n
            \<and> unat (lastSlot p) = unat (firstBlock p) + n - m + 1
            \<and> (\<forall>a\<in>G. unat a + m \<le> unat (curSlot p) \<or> unat a + m \<le> unat (firstBlock p)
                      \<or> unat (firstBlock p) + n \<le> unat a))))"

text \<open>
  \<open>pooled us\<close> are the regions in use that a pool has served, those of 1 to
  \<^verbatim>\<open>MAX_SLOT_SIZE\<close> bytes. \<open>pool_wf\<close> is the state of the pool at index \<open>i\<close> of the table:
  its geometry with blocks of 4096 bytes and slots of \<open>SLOT_BASE_SIZE * (i + 1)\<close> bytes;
  its blocks are live; its free list is a chain of slots of the pool, each once, none of
  them in use; no region in use that came from the system allocator is at one of its
  blocks. \<open>table_inv\<close> ties the pools together. \<open>F\<close> lists the addresses that the system
  allocator had to hand out at the start and \<open>taken\<close> those handed out since; the blocks
  of the pools are among them and no two pools share a block; a region in use that a
  pool has served is a slot of the pool of its size class; a region in use of more than
  \<^verbatim>\<open>MAX_SLOT_SIZE\<close> bytes is at an address handed out by the system allocator; a region
  of 0 bytes is null; the regions in use that the pools have served are at different
  addresses. \<open>router_inv\<close> says that the table is constructed and that there are slots,
  blocks and free lists with which \<open>table_inv\<close> holds.
\<close>

definition pooled :: "(addr \<times> size_t) list \<Rightarrow> (addr \<times> size_t) list" where
  "pooled us = filter (\<lambda>x. snd x \<noteq> 0 \<and> snd x \<le> of_nat MAX_SLOT_SIZE) us"




subsection \<open>Example states\<close>

text \<open>A system allocator that will hand out the blocks at \<open>0x10000\<close> and \<open>0x20000\<close>,
  a process in which \<^verbatim>\<open>getMemoryPool\<close> has not been called yet, and a pool as
  \<^verbatim>\<open>MemoryPool pool(4096); pool.init(s)\<close> leaves it.\<close>

definition example_heap :: heap where
  "example_heap = \<lparr>next_word = Map.empty, fresh = [0x10000, 0x20000], live = []\<rparr>"

definition example_world :: world where
  "example_world = \<lparr>memoryPool = None, memory = example_heap, lifetime = []\<rparr>"

definition example_pool :: "cint \<Rightarrow> MemoryPool" where
  "example_pool s =
     \<lparr>BlockSize = 4096, SlotSize = s, firstBlock = 0, curSlot = 0, lastSlot = 0,
      freeList = 0, mutexForBlock = 0\<rparr>"

text \<open>The example process after \<^verbatim>\<open>HashBucket::initMemoryPool()\<close>.\<close>

definition configured_world :: world where
  "configured_world =
     \<lparr>memoryPool = Some (map (\<lambda>j. init_state j (MemoryPool_ctor 4096)) [0..<MEMORY_POOL_NUM]),
      memory = example_heap, lifetime = []\<rparr>"

section \<open>Properties\<close>

subsection \<open>The loops and the three paths of allocate\<close>

lemma pushFreeList_eq:
  "pushFreeList k slot p h =
     (True, p\<lparr>freeList := slot\<rparr>, h\<lparr>next_word := (next_word h)(slot \<mapsto> freeList p)\<rparr>)"
  by (induction k arbitrary: h) (simp_all add: compare_exchange_weak_def)

lemma popFreeList_eq:
  "popFreeList k p h =
     (if freeList p = 0 then Inr (0, p)
      else case next_word h (freeList p) of
             None \<Rightarrow> Inl IndeterminateRead
           | Some newHead \<Rightarrow> Inr (freeList p, p\<lparr>freeList := newHead\<rparr>))"
  by (induction k) (simp_all add: compare_exchange_weak_def split: option.splits)

lemma deallocate_eq:
  "deallocate k ptr p h =
     (if ptr = 0 then (p, h)
      else (p\<lparr>freeList := ptr\<rparr>, h\<lparr>next_word := (next_word h)(ptr \<mapsto> freeList p)\<rparr>))"
  by (simp add: deallocate_def pushFreeList_eq)

lemma allocate_pop:
  "freeList p \<noteq> 0 \<Longrightarrow> next_word h (freeList p) = Some n \<Longrightarrow>
   allocate k p h = Inr (freeList p, p\<lparr>freeList := n\<rparr>, h)"
  by (simp add: allocate_def popFreeList_eq)

lemma allocate_bump:
  "freeList p = 0 \<Longrightarrow> curSlot p < lastSlot p \<Longrightarrow>
   allocate k p h =
     Inr (curSlot p,
          p\<lparr>mutexForBlock := Suc (mutexForBlock p),
            curSlot := curSlot p + sizeof_Slot * (int_to_size_t (SlotSize p) div sizeof_Slot)\<rparr>,
          h)"
  by (simp add: allocate_def popFreeList_eq Let_def flip: not_less)

lemma allocate_grow:
  "freeList p = 0 \<Longrightarrow> lastSlot p \<le> curSlot p \<Longrightarrow>
   allocate k p h =
     (case allocateNewBlock (p\<lparr>mutexForBlock := Suc (mutexForBlock p)\<rparr>) h of
        Inl e \<Rightarrow> Inl e
      | Inr (p3, h3) \<Rightarrow>
          Inr (curSlot p3,
               p3\<lparr>curSlot := curSlot p3
                     + sizeof_Slot * (int_to_size_t (SlotSize p3) div sizeof_Slot)\<rparr>,
               h3))"
  by (simp add: allocate_def popFreeList_eq Let_def)

lemma init_example: "init 8 (MemoryPool_ctor 4096) = Inr (example_pool 8)"
  by (simp add: init_def MemoryPool_ctor_def example_pool_def size_t_to_int_def)

lemma ucast_minus_1: "(ucast (- 1 :: 64 word) :: 32 word) = - 1"
  by (rule bit_word_eqI) (auto simp add: bit_simps)

subsection \<open>The router at its boundaries\<close>

text \<open>
  Claim C1. A request of exactly \<^verbatim>\<open>MAX_SLOT_SIZE\<close> (512) bytes is served by
  \<^verbatim>\<open>getMemoryPool(63).allocate()\<close>, 63 being \<^verbatim>\<open>MEMORY_POOL_NUM - 1\<close>; a request
  of 513 bytes goes to \<^verbatim>\<open>operator new\<close> and leaves the table of pools as it was; a
  request of 0 bytes returns the null pointer and changes nothing.
\<close>

theorem router_boundary:
  "useMemory k (of_nat MAX_SLOT_SIZE) w = pool_allocate k (of_nat (MEMORY_POOL_NUM - 1)) w
   \<and> useMemory k (of_nat MAX_SLOT_SIZE + 1) w =
       (case operator_new (of_nat MAX_SLOT_SIZE + 1) (memory w) of
          Inl e \<Rightarrow> Inl e
        | Inr (a, h1) \<Rightarrow> Inr (a, w\<lparr>memory := h1\<rparr>))
   \<and> useMemory k 0 w = Inr (0, w)"
  by (simp add: useMemory_def MAX_SLOT_SIZE_def SLOT_BASE_SIZE_def MEMORY_POOL_NUM_def
      size_t_to_int_def)

subsection \<open>Reuse of a freed slot\<close>

text \<open>
  Claim C2. In any state of a pool, whatever the number of spurious failures of the
  exchanges: when \<open>allocate\<close> returns the address \<open>A\<close>, a second \<open>allocate\<close> returns
  \<open>B\<close> and \<open>A\<close> is deallocated, the next \<open>allocate\<close> returns \<open>A\<close>, and the pool is
  again as it was after the second allocation. \<open>A\<close> is an address, that is, not null.
\<close>

theorem reuse_LIFO:
  assumes "allocate k1 p h = Inr (A, p1, h1)"
    and "allocate k2 p1 h1 = Inr (B, p2, h2)"
    and "A \<noteq> 0"
    and "deallocate k3 A p2 h2 = (p3, h3)"
  shows "allocate k4 p3 h3 = Inr (A, p2, h3)"
proof -
  from assms(3,4) have p3: "p3 = p2\<lparr>freeList := A\<rparr>"
    and h3: "h3 = h2\<lparr>next_word := (next_word h2)(A \<mapsto> freeList p2)\<rparr>"
    by (simp_all add: deallocate_eq)
  have "freeList p3 \<noteq> 0" "next_word h3 (freeList p3) = Some (freeList p2)"
    using assms(3) by (simp_all add: p3 h3)
  from allocate_pop [OF this] show ?thesis
    by (simp add: p3)
qed

text \<open>The reuse test of the repository: a pool of 8-byte slots, two allocations, the
  first one freed and handed out again.\<close>

theorem reuse_LIFO_witness:
  "allocate 0 (example_pool 8) example_heap =
     Inr (0x10008,
          (example_pool 8)\<lparr>firstBlock := 0x10000, curSlot := 0x10010, lastSlot := 0x10FF9,
            mutexForBlock := 1\<rparr>,
          \<lparr>next_word = [0x10000 \<mapsto> 0], fresh = [0x20000], live = [(0x10000, 4096)]\<rparr>)
   \<and> allocate 0
         ((example_pool 8)\<lparr>firstBlock := 0x10000, curSlot := 0x10010, lastSlot := 0x10FF9,
            mutexForBlock := 1\<rparr>)
         \<lparr>next_word = [0x10000 \<mapsto> 0], fresh = [0x20000], live = [(0x10000, 4096)]\<rparr> =
     Inr (0x10010,
          (example_pool 8)\<lparr>firstBlock := 0x10000, curSlot := 0x10018, lastSlot := 0x10FF9,
            mutexForBlock := 2\<rparr>,
          \<lparr>next_word = [0x10000 \<mapsto> 0], fresh = [0x20000], live = [(0x10000, 4096)]\<rparr>)
   \<and> (0x10008 :: addr) \<noteq> 0
   \<and> deallocate 1 0x10008
         ((example_pool 8)\<lparr>firstBlock := 0x10000, curSlot := 0x10018, lastSlot := 0x10FF9,
            mutexForBlock := 2\<rparr>)
         \<lparr>next_word = [0x10000 \<mapsto> 0], fresh = [0x20000], live = [(0x10000, 4096)]\<rparr> =
       ((example_pool 8)\<lparr>firstBlock := 0x10000, curSlot := 0x10018, lastSlot := 0x10FF9,
          freeList := 0x10008, mutexForBlock := 2\<rparr>,
        \<lparr>next_word = [0x10000 \<mapsto> 0, 0x10008 \<mapsto> 0], fresh = [0x20000],
         live = [(0x10000, 4096)]\<rparr>)
   \<and> allocate 3
         ((example_pool 8)\<lparr>firstBlock := 0x10000, curSlot := 0x10018, lastSlot := 0x10FF9,
            freeList := 0x10008, mutexForBlock := 2\<rparr>)
         \<lparr>next_word = [0x10000 \<mapsto> 0, 0x10008 \<mapsto> 0], fresh = [0x20000],
          live = [(0x10000, 4096)]\<rparr> =
     Inr (0x10008,
          (example_pool 8)\<lparr>firstBlock := 0x10000, curSlot := 0x10018, lastSlot := 0x10FF9,
            mutexForBlock := 2\<rparr>,
          \<lparr>next_word = [0x10000 \<mapsto> 0, 0x10008 \<mapsto> 0], fresh = [0x20000],
           live = [(0x10000, 4096)]\<rparr>)"
proof -
  let ?h1 = "\<lparr>next_word = [0x10000 \<mapsto> 0], fresh = [0x20000], live = [(0x10000, 4096)]\<rparr>"
  let ?p1 = "(example_pool 8)\<lparr>firstBlock := 0x10000, curSlot := 0x10010, lastSlot := 0x10FF9,
            mutexForBlock := 1\<rparr>"
  let ?p2 = "(example_pool 8)\<lparr>firstBlock := 0x10000, curSlot := 0x10018, lastSlot := 0x10FF9,
            mutexForBlock := 2\<rparr>"
  let ?p3 = "?p2\<lparr>freeList := 0x10008\<rparr>"
  let ?h3 = "?h1\<lparr>next_word := (next_word ?h1)(0x10008 \<mapsto> freeList ?p2)\<rparr>"
  have a1: "allocate 0 (example_pool 8) example_heap = Inr (0x10008, ?p1, ?h1)"
    by (simp add: allocate_def popFreeList_eq allocateNewBlock_def operator_new_def
        padPointer_def example_pool_def example_heap_def int_to_size_t_def sizeof_Slot_def
        Let_def)
  have a2: "allocate 0 ?p1 ?h1 = Inr (0x10010, ?p2, ?h1)"
    by (simp add: allocate_def popFreeList_eq example_pool_def int_to_size_t_def
        sizeof_Slot_def Let_def)
  have nz: "(0x10008 :: addr) \<noteq> 0"
    by simp
  have d: "deallocate 1 0x10008 ?p2 ?h1 = (?p3, ?h3)"
    by (simp add: deallocate_eq)
  from reuse_LIFO [OF a1 a2 nz d, of 3] a1 a2 nz d show ?thesis
    by (simp add: example_pool_def)
qed

subsection \<open>Arguments that ask for nothing\<close>

text \<open>
  Claim C9, as the code has it. \<^verbatim>\<open>useMemory(0)\<close> returns the null pointer,
  \<^verbatim>\<open>freeMemory(nullptr, size)\<close> returns for every size, and \<^verbatim>\<open>deallocate(nullptr)\<close>
  returns; each leaves the pools, the memory and the table as they were. A size is a
  \<^verbatim>\<open>size_t\<close> and is never negative.
\<close>

theorem invalid_arguments:
  "useMemory k 0 w = Inr (0, w)
   \<and> freeMemory k 0 sz w = Inr w
   \<and> deallocate k 0 p h = (p, h)"
  by (simp add: useMemory_def freeMemory_def deallocate_def)

text \<open>
  The guard of \<^verbatim>\<open>freeMemory\<close> is on the address only. With a size of 0 and an
  address that is not null the index is \<open>(0 + 7) / 8 - 1\<close>, which is \<open>-1\<close> as an
  \<^verbatim>\<open>int\<close>, and \<^verbatim>\<open>memoryPool[-1]\<close> lies outside the table: the call is not a no-op.
\<close>

theorem free_zero_size_counterexample:
  "freeMemory 0 0x10008 0 example_world = Inl IndexOutOfBounds"
  by (simp add: ucast_minus_1 freeMemory_def pool_deallocate_def getMemoryPool_def
      memoryPool_array_def MAX_SLOT_SIZE_def SLOT_BASE_SIZE_def MEMORY_POOL_NUM_def
      size_t_to_int_def Let_def)

subsection \<open>The frame of deallocate\<close>

text \<open>
  Claim C10. \<open>deallocate\<close> of an address that is not null changes the head of the free
  list, which becomes that address, and the \<^verbatim>\<open>next\<close> word at that address, which
  becomes the old head. Everything else is as before: the slot size, the block size, the
  cursor, the boundary and the head of the block list of the pool, the number of times
  the mutex was locked, the blocks the system has handed out and will hand out, and all
  other stored words.
\<close>

theorem deallocate_frame:
  "ptr \<noteq> 0 \<Longrightarrow>
   deallocate k ptr p h =
     (p\<lparr>freeList := ptr\<rparr>, h\<lparr>next_word := (next_word h)(ptr \<mapsto> freeList p)\<rparr>)"
  by (simp add: deallocate_eq)

theorem deallocate_frame_witness:
  "(0x10010 :: addr) \<noteq> 0
   \<and> deallocate 2 0x10010
        ((example_pool 8)\<lparr>firstBlock := 0x10000, curSlot := 0x10018, lastSlot := 0x10FF9,
           freeList := 0x10008, mutexForBlock := 2\<rparr>)
        \<lparr>next_word = [0x10000 \<mapsto> 0, 0x10008 \<mapsto> 0], fresh = [0x20000],
         live = [(0x10000, 4096)]\<rparr> =
       ((example_pool 8)\<lparr>firstBlock := 0x10000, curSlot := 0x10018, lastSlot := 0x10FF9,
          freeList := 0x10010, mutexForBlock := 2\<rparr>,
        \<lparr>next_word = [0x10000 \<mapsto> 0, 0x10008 \<mapsto> 0, 0x10010 \<mapsto> 0x10008],
         fresh = [0x20000], live = [(0x10000, 4096)]\<rparr>)"
proof -
  have nz: "(0x10010 :: addr) \<noteq> 0"
    by simp
  from deallocate_frame [OF nz, of 2] nz show ?thesis
    by (simp add: example_pool_def)
qed

subsection \<open>Conversions between int and size_t\<close>

lemma uint_scast_64:
  fixes s :: cint
  shows "uint (scast s :: 64 word) = sint s mod 2 ^ 64"
proof -
  have "uint (scast s :: 64 word) = uint (word_of_int (sint s) :: 64 word)"
    by (simp only: scast_eq)
  also have "\<dots> = take_bit 64 (sint s)"
    by (simp only: uint_word_of_int_eq) simp
  also have "\<dots> = sint s mod 2 ^ 64"
    by (simp only: take_bit_eq_mod)
  finally show ?thesis .
qed

lemma sint_cint_bounds:
  fixes s :: cint
  shows "- (2 ^ 31) \<le> sint s" "sint s < 2 ^ 31"
  using sint_ge [of s] sint_lt [of s] by simp_all

lemma uint_int_to_size_t:
  fixes s :: cint
  assumes "0 \<le> sint s"
  shows "uint (int_to_size_t s) = sint s"
proof -
  have "sint s < 2 ^ 64"
    using sint_cint_bounds(2) [of s] by simp
  then show ?thesis
    using assms by (simp add: int_to_size_t_def uint_scast_64)
qed

lemma unat_int_to_size_t:
  fixes s :: cint
  assumes "0 \<le> sint s"
  shows "unat (int_to_size_t s) = nat (sint s)"
  using uint_int_to_size_t [OF assms] by (simp add: unat_eq_nat_uint)

lemma word_mult_div_8:
  fixes x :: "64 word"
  assumes "8 dvd uint x"
  shows "8 * (x div 8) = x"
proof -
  have "uint (8 * (x div 8)) = (8 * (uint x div 8)) mod 2 ^ 64"
    by (simp add: uint_word_ariths uint_div)
  also have "\<dots> = uint x mod 2 ^ 64"
    using assms by simp
  also have "\<dots> = uint x"
    using uint_lt2p [of x] by simp
  finally show ?thesis
    by (simp add: word_uint_eq_iff)
qed

lemma slot_step:
  fixes s :: cint
  assumes "8 dvd sint s"
  shows "sizeof_Slot * (int_to_size_t s div sizeof_Slot) = int_to_size_t s"
proof -
  have "(8::int) dvd 2 ^ 64"
    by simp
  with assms have "8 dvd uint (scast s :: 64 word)"
    by (simp only: uint_scast_64 dvd_mod)
  from word_mult_div_8 [OF this] show ?thesis
    by (simp add: sizeof_Slot_def int_to_size_t_def)
qed

lemma sint_of_nat_small:
  assumes "n < 2 ^ 31"
  shows "sint (of_nat n :: cint) = int n"
proof -
  have "sint (of_nat n :: cint) = signed_take_bit 31 (int n)"
    by (simp add: signed_of_nat)
  also have "\<dots> = int n"
    using assms by (simp add: signed_take_bit_int_eq_self)
  finally show ?thesis .
qed

lemma int_to_size_t_of_nat:
  assumes "n < 2 ^ 31"
  shows "int_to_size_t (of_nat n) = of_nat n"
  by (simp add: int_to_size_t_def scast_eq sint_of_nat_small [OF assms])

lemma size_t_to_int_of_nat: "size_t_to_int (of_nat n) = of_nat n"
  unfolding size_t_to_int_def
  by (rule bit_word_eqI) (auto simp add: bit_simps)

subsection \<open>The cursor\<close>

text \<open>What a call of \<open>allocate\<close> that finds the free list empty leaves behind.\<close>

lemma allocate_empty_list:
  assumes "freeList p = 0" and "allocate k p h = Inr (A, p1, h1)"
  shows "freeList p1 = 0 \<and> SlotSize p1 = SlotSize p \<and> BlockSize p1 = BlockSize p
         \<and> curSlot p1 = A + sizeof_Slot * (int_to_size_t (SlotSize p) div sizeof_Slot)"
proof (cases "curSlot p < lastSlot p")
  case True
  from allocate_bump [OF assms(1) True, of k h] assms show ?thesis
    by auto
next
  case False
  then have "lastSlot p \<le> curSlot p"
    by simp
  from allocate_grow [OF assms(1) this, of k h] assms show ?thesis
    by (auto simp add: allocateNewBlock_def Let_def split: sum.splits prod.splits)
qed

text \<open>
  Claim C3, as the code has it. The cursor is a \<^verbatim>\<open>Slot*\<close> and moves by
  \<^verbatim>\<open>SlotSize_ / sizeof(Slot)\<close> slots of 8 bytes, which is the slot size when the slot
  size is a multiple of 8. For such a pool with an empty free list: when the cursor is
  below the boundary, \<open>allocate\<close> returns the cursor and moves it by the slot size; and
  when \<open>allocate\<close> has returned \<open>A\<close> and the cursor is still below the boundary, the
  next \<open>allocate\<close> returns \<open>A\<close> plus the slot size. The slot size as a \<^verbatim>\<open>size_t\<close> is
  the value of the \<^verbatim>\<open>int\<close>.
\<close>

theorem bump_contiguity:
  assumes "0 < sint (SlotSize p)" and "8 dvd sint (SlotSize p)" and "freeList p = 0"
  shows "(curSlot p < lastSlot p \<longrightarrow>
            allocate k p h =
              Inr (curSlot p,
                   p\<lparr>mutexForBlock := Suc (mutexForBlock p),
                     curSlot := curSlot p + int_to_size_t (SlotSize p)\<rparr>, h))
         \<and> (\<forall>A p1 h1. allocate k p h = Inr (A, p1, h1) \<and> curSlot p1 < lastSlot p1 \<longrightarrow>
               allocate k' p1 h1 =
                 Inr (A + int_to_size_t (SlotSize p),
                      p1\<lparr>mutexForBlock := Suc (mutexForBlock p1),
                         curSlot := A + int_to_size_t (SlotSize p) + int_to_size_t (SlotSize p)\<rparr>,
                      h1))
         \<and> unat (int_to_size_t (SlotSize p)) = nat (sint (SlotSize p))"
proof (intro conjI impI allI)
  assume "curSlot p < lastSlot p"
  from allocate_bump [OF assms(3) this, of k h] show
    "allocate k p h =
       Inr (curSlot p,
            p\<lparr>mutexForBlock := Suc (mutexForBlock p),
              curSlot := curSlot p + int_to_size_t (SlotSize p)\<rparr>, h)"
    by (simp add: slot_step [OF assms(2)])
next
  fix A p1 h1
  assume a: "allocate k p h = Inr (A, p1, h1) \<and> curSlot p1 < lastSlot p1"
  from allocate_empty_list [OF assms(3) conjunct1 [OF a]]
  have p1: "freeList p1 = 0" "SlotSize p1 = SlotSize p"
    "curSlot p1 = A + int_to_size_t (SlotSize p)"
    by (simp_all add: slot_step [OF assms(2)])
  from allocate_bump [OF p1(1) conjunct2 [OF a], of k' h1] show
    "allocate k' p1 h1 =
       Inr (A + int_to_size_t (SlotSize p),
            p1\<lparr>mutexForBlock := Suc (mutexForBlock p1),
               curSlot := A + int_to_size_t (SlotSize p) + int_to_size_t (SlotSize p)\<rparr>,
            h1)"
    by (simp add: p1 slot_step [OF assms(2)])
next
  from assms(1) show "unat (int_to_size_t (SlotSize p)) = nat (sint (SlotSize p))"
    by (simp add: unat_int_to_size_t)
qed

text \<open>The allocation test of the repository: 8-byte slots, two allocations, the second
  8 bytes after the first.\<close>

theorem bump_contiguity_witness:
  "0 < sint (SlotSize (example_pool 8)) \<and> 8 dvd sint (SlotSize (example_pool 8))
   \<and> freeList (example_pool 8) = 0
   \<and> allocate 0 (example_pool 8) example_heap =
       Inr (0x10008,
            (example_pool 8)\<lparr>firstBlock := 0x10000, curSlot := 0x10010, lastSlot := 0x10FF9,
              mutexForBlock := 1\<rparr>,
            \<lparr>next_word = [0x10000 \<mapsto> 0], fresh = [0x20000], live = [(0x10000, 4096)]\<rparr>)
   \<and> (0x10010 :: addr) < 0x10FF9
   \<and> allocate 0
         ((example_pool 8)\<lparr>firstBlock := 0x10000, curSlot := 0x10010, lastSlot := 0x10FF9,
            mutexForBlock := 1\<rparr>)
         \<lparr>next_word = [0x10000 \<mapsto> 0], fresh = [0x20000], live = [(0x10000, 4096)]\<rparr> =
       Inr (0x10008 + 8,
            (example_pool 8)\<lparr>firstBlock := 0x10000, curSlot := 0x10008 + 8 + 8,
              lastSlot := 0x10FF9, mutexForBlock := 2\<rparr>,
            \<lparr>next_word = [0x10000 \<mapsto> 0], fresh = [0x20000], live = [(0x10000, 4096)]\<rparr>)"
proof -
  let ?p1 = "(example_pool 8)\<lparr>firstBlock := 0x10000, curSlot := 0x10010, lastSlot := 0x10FF9,
              mutexForBlock := 1\<rparr>"
  let ?h1 = "\<lparr>next_word = [0x10000 \<mapsto> 0], fresh = [0x20000], live = [(0x10000, 4096)]\<rparr>"
  have s: "0 < sint (SlotSize (example_pool 8))" "8 dvd sint (SlotSize (example_pool 8))"
    "freeList (example_pool 8) = 0"
    by (simp_all add: example_pool_def)
  have a1: "allocate 0 (example_pool 8) example_heap = Inr (0x10008, ?p1, ?h1)"
    by (simp add: allocate_def popFreeList_eq allocateNewBlock_def operator_new_def
        padPointer_def example_pool_def example_heap_def int_to_size_t_def sizeof_Slot_def
        Let_def)
  have lt: "curSlot ?p1 < lastSlot ?p1"
    by simp
  from bump_contiguity [OF s, of 0 example_heap 0] a1 lt
  have "allocate 0 ?p1 ?h1 =
          Inr (0x10008 + int_to_size_t (SlotSize (example_pool 8)),
               ?p1\<lparr>mutexForBlock := Suc (mutexForBlock ?p1),
                  curSlot := 0x10008 + int_to_size_t (SlotSize (example_pool 8))
                               + int_to_size_t (SlotSize (example_pool 8))\<rparr>, ?h1)"
    by blast
  with s a1 show ?thesis
    by (simp add: example_pool_def int_to_size_t_def)
qed

text \<open>
  With a slot size of 4, which \<^verbatim>\<open>init\<close> accepts, \<^verbatim>\<open>SlotSize_ / sizeof(Slot)\<close> is 0:
  the cursor stays where it is and two consecutive allocations return the same address.
\<close>

theorem bump_step_counterexample:
  "init 4 (MemoryPool_ctor 4096) = Inr (example_pool 4)
   \<and> run [Allocate 0, Allocate 0] [] (example_pool 4) example_heap =
       Inr ([0x10008, 0x10008],
            (example_pool 4)\<lparr>firstBlock := 0x10000, curSlot := 0x10008, lastSlot := 0x10FFD,
               mutexForBlock := 2\<rparr>,
            \<lparr>next_word = [0x10000 \<mapsto> 0], fresh = [0x20000], live = [(0x10000, 4096)]\<rparr>)"
  by (simp add: init_def MemoryPool_ctor_def size_t_to_int_def allocate_def popFreeList_eq
      allocateNewBlock_def operator_new_def padPointer_def example_pool_def example_heap_def
      int_to_size_t_def sizeof_Slot_def Let_def)

subsection \<open>The table of pools\<close>

lemma init_at:
  assumes "j < MEMORY_POOL_NUM"
  shows "init (int_to_size_t ((of_nat j + 1) * of_nat SLOT_BASE_SIZE)) p = Inr (init_state j p)"
proof -
  define n where "n = (j + 1) * SLOT_BASE_SIZE"
  have n: "0 < n" "n < 2 ^ 31" "n < 2 ^ 64"
    using assms by (simp_all add: n_def MEMORY_POOL_NUM_def SLOT_BASE_SIZE_def)
  have "(of_nat j + 1) * of_nat SLOT_BASE_SIZE = (of_nat n :: cint)"
    by (simp add: n_def algebra_simps)
  then have arg: "int_to_size_t ((of_nat j + 1) * of_nat SLOT_BASE_SIZE) = (of_nat n :: size_t)"
    using int_to_size_t_of_nat [OF n(2)] by simp
  have "(of_nat n :: size_t) \<noteq> 0"
    using of_nat_neq_0 [of n, where 'a = 64] n by simp
  then show ?thesis
    unfolding arg init_def init_state_def n_def [symmetric]
    by (simp add: size_t_to_int_of_nat word_greater_zero_iff)
qed

lemma getMemoryPool_at:
  assumes "j < length (memoryPool_array w)" and "length (memoryPool_array w) = MEMORY_POOL_NUM"
  shows "getMemoryPool (of_nat j) w =
           Inr (memoryPool_array w ! j, w\<lparr>memoryPool := Some (memoryPool_array w)\<rparr>)"
proof -
  have "j < 2 ^ 31"
    using assms by (simp add: MEMORY_POOL_NUM_def)
  from sint_of_nat_small [OF this] assms(1) show ?thesis
    by (simp add: getMemoryPool_def Let_def)
qed

lemma memoryPool_array_set_pool:
  "memoryPool_array (set_pool index p w) = (memoryPool_array w)[nat (sint index) := p]"
  by (simp add: set_pool_def memoryPool_array_def)

lemma memoryPool_array_Some [simp]:
  "memoryPool_array (w\<lparr>memoryPool := Some ps\<rparr>) = ps"
  by (simp add: memoryPool_array_def)

lemma initMemoryPool_from_eq:
  assumes "length (memoryPool_array w) = MEMORY_POOL_NUM"
  shows "initMemoryPool_from i w =
           Inr (if i < MEMORY_POOL_NUM
                then w\<lparr>memoryPool := Some (map (\<lambda>j. if i \<le> j then init_state j (memoryPool_array w ! j)
                                                    else memoryPool_array w ! j) [0..<MEMORY_POOL_NUM])\<rparr>
                else w)"
  using assms
proof (induction i w rule: initMemoryPool_from.induct)
  case (1 i w)
  show ?case
  proof (cases "i < MEMORY_POOL_NUM")
    case False
    then show ?thesis
      by (subst initMemoryPool_from.simps) simp
  next
    case True
    let ?ps = "memoryPool_array w"
    let ?w1 = "w\<lparr>memoryPool := Some ?ps\<rparr>"
    let ?p1 = "init_state i (?ps ! i)"
    let ?w2 = "set_pool (of_nat i) ?p1 ?w1"
    have i31: "i < 2 ^ 31"
      using True by (simp add: MEMORY_POOL_NUM_def)
    have g: "getMemoryPool (of_nat i) w = Inr (?ps ! i, ?w1)"
      using getMemoryPool_at [of i w] True "1.prems" by simp
    have ini: "init (int_to_size_t ((of_nat i + 1) * of_nat SLOT_BASE_SIZE)) (?ps ! i) = Inr ?p1"
      by (rule init_at [OF True])
    have arr: "memoryPool_array ?w2 = ?ps[i := ?p1]"
      by (simp add: memoryPool_array_set_pool sint_of_nat_small [OF i31])
    then have len: "length (memoryPool_array ?w2) = MEMORY_POOL_NUM"
      using "1.prems" by simp
    have step: "initMemoryPool_from i w = initMemoryPool_from (Suc i) ?w2"
      by (subst initMemoryPool_from.simps) (simp add: True g ini)
    have w2: "?w2 = w\<lparr>memoryPool := Some (?ps[i := ?p1])\<rparr>"
      by (simp add: set_pool_def sint_of_nat_small [OF i31])
    let ?f = "\<lambda>j. if Suc i \<le> j then init_state j (?ps[i := ?p1] ! j) else ?ps[i := ?p1] ! j"
    let ?g = "\<lambda>j. if i \<le> j then init_state j (?ps ! j) else ?ps ! j"
    have "initMemoryPool_from (Suc i) ?w2 =
           Inr (if Suc i < MEMORY_POOL_NUM
                then ?w2\<lparr>memoryPool := Some (map (\<lambda>j. if Suc i \<le> j then init_state j (memoryPool_array ?w2 ! j)
                                                    else memoryPool_array ?w2 ! j) [0..<MEMORY_POOL_NUM])\<rparr>
                else ?w2)"
      using "1.IH" [OF True g refl ini len] .
    then have IH: "initMemoryPool_from (Suc i) ?w2 =
           Inr (if Suc i < MEMORY_POOL_NUM
                then ?w2\<lparr>memoryPool := Some (map ?f [0..<MEMORY_POOL_NUM])\<rparr>
                else ?w2)"
      unfolding arr .
    have eq: "map ?f [0..<MEMORY_POOL_NUM] = map ?g [0..<MEMORY_POOL_NUM]"
      using True "1.prems" by (auto simp add: nth_list_update not_less_eq_eq dest: le_antisym)
    have upd: "?w2\<lparr>memoryPool := Some X\<rparr> = w\<lparr>memoryPool := Some X\<rparr>" for X
      by (simp add: set_pool_def)
    have fin: "?ps[i := ?p1] = map ?g [0..<MEMORY_POOL_NUM]" if "\<not> Suc i < MEMORY_POOL_NUM"
    proof -
      from that True have "Suc i = MEMORY_POOL_NUM"
        by simp
      show ?thesis
      proof (rule nth_equalityI)
        show "length (?ps[i := ?p1]) = length (map ?g [0..<MEMORY_POOL_NUM])"
          using "1.prems" by simp
      next
        fix j
        assume "j < length (?ps[i := ?p1])"
        then have j: "j < MEMORY_POOL_NUM" "j \<le> i"
          using "1.prems" \<open>Suc i = MEMORY_POOL_NUM\<close> by simp_all
        show "?ps[i := ?p1] ! j = map ?g [0..<MEMORY_POOL_NUM] ! j"
        proof (cases "j = i")
          case True
          with j "1.prems" show ?thesis
            by simp
        next
          case False
          with j have "\<not> i \<le> j"
            by simp
          with j False show ?thesis
            by simp
        qed
      qed
    qed
    have "initMemoryPool_from (Suc i) ?w2 = Inr (w\<lparr>memoryPool := Some (map ?g [0..<MEMORY_POOL_NUM])\<rparr>)"
    proof (cases "Suc i < MEMORY_POOL_NUM")
      case True
      with IH show ?thesis
        by (simp only: if_True upd eq)
    next
      case False
      with IH have "initMemoryPool_from (Suc i) ?w2 = Inr ?w2"
        by (simp only: if_False)
      then show ?thesis
        by (simp only: w2 fin [OF False])
    qed
    with step True show ?thesis
      by (simp only: if_True)
  qed
qed

lemma initMemoryPool_eq:
  assumes "registry_ok w"
  shows "initMemoryPool w =
           Inr (w\<lparr>memoryPool := Some (map (\<lambda>j. init_state j (memoryPool_array w ! j))
                                           [0..<MEMORY_POOL_NUM])\<rparr>)"
proof -
  from assms have "length (memoryPool_array w) = MEMORY_POOL_NUM"
    by (simp add: registry_ok_def)
  from initMemoryPool_from_eq [OF this, of 0] show ?thesis
    by (simp add: initMemoryPool_def MEMORY_POOL_NUM_def)
qed

lemma SlotSize_init_state: "SlotSize (init_state j p) = of_nat ((j + 1) * SLOT_BASE_SIZE)"
  by (simp add: init_state_def)


lemma getMemoryPool_Some:
  assumes "memoryPool w = Some ps"
  shows "getMemoryPool index w =
           (if 0 \<le> sint index \<and> sint index < int (length ps)
            then Inr (ps ! nat (sint index), w) else Inl IndexOutOfBounds)"
proof -
  from assms have "w\<lparr>memoryPool := Some ps\<rparr> = w"
    by simp
  with assms show ?thesis
    by (simp add: getMemoryPool_def memoryPool_array_def Let_def)
qed

lemma registry_ok_example: "registry_ok example_world"
  by (simp add: registry_ok_def memoryPool_array_def example_world_def)


lemma configured_example: "configured configured_world"
  by (simp add: configured_def configured_world_def SlotSize_init_state comp_def)

text \<open>
  Claim C6, as the code has it. The slot sizes are set by \<^verbatim>\<open>initMemoryPool\<close>, which
  the caller runs: after it, for every index \<open>i\<close> below \<^verbatim>\<open>MEMORY_POOL_NUM\<close>,
  \<^verbatim>\<open>getMemoryPool(i)\<close> is a pool of slot size \<open>(i + 1) * SLOT_BASE_SIZE\<close>, and the
  memory is untouched. The first construction of the table, by the first call of
  \<^verbatim>\<open>getMemoryPool\<close>, gives every pool the slot size 0.
\<close>

theorem initMemoryPool_configures:
  assumes "registry_ok w" and "i < MEMORY_POOL_NUM"
  shows "(\<exists>w1 p. initMemoryPool w = Inr w1 \<and> configured w1
            \<and> memory w1 = memory w \<and> lifetime w1 = lifetime w
            \<and> getMemoryPool (of_nat i) w1 = Inr (p, w1)
            \<and> sint (SlotSize p) = int ((i + 1) * SLOT_BASE_SIZE))
         \<and> (memoryPool w = None \<longrightarrow>
              (\<exists>w0. getMemoryPool (of_nat i) w = Inr (MemoryPool_ctor 4096, w0))
              \<and> SlotSize (MemoryPool_ctor 4096) = 0)"
proof -
  have i31: "i < 2 ^ 31" and m31: "(i + 1) * SLOT_BASE_SIZE < 2 ^ 31"
    using assms(2) by (simp_all add: MEMORY_POOL_NUM_def SLOT_BASE_SIZE_def)
  show ?thesis
  proof (intro conjI impI)
  let ?ps = "map (\<lambda>j. init_state j (memoryPool_array w ! j)) [0..<MEMORY_POOL_NUM]"
  let ?w1 = "w\<lparr>memoryPool := Some ?ps\<rparr>"
  have 1: "initMemoryPool w = Inr ?w1"
    by (rule initMemoryPool_eq [OF assms(1)])
  have 2: "configured ?w1"
    by (simp add: configured_def SlotSize_init_state comp_def)
  have 3: "getMemoryPool (of_nat i) ?w1 = Inr (?ps ! i, ?w1)"
    using assms(2) by (simp add: getMemoryPool_Some [of ?w1 ?ps] sint_of_nat_small [OF i31])
  have "SlotSize (?ps ! i) = of_nat ((i + 1) * SLOT_BASE_SIZE)"
    using assms(2) by (simp add: SlotSize_init_state)
  then have 4: "sint (SlotSize (?ps ! i)) = int ((i + 1) * SLOT_BASE_SIZE)"
    by (simp only: sint_of_nat_small [OF m31])
  from 1 2 3 4 show "\<exists>w1 p. initMemoryPool w = Inr w1 \<and> configured w1
            \<and> memory w1 = memory w \<and> lifetime w1 = lifetime w
            \<and> getMemoryPool (of_nat i) w1 = Inr (p, w1)
            \<and> sint (SlotSize p) = int ((i + 1) * SLOT_BASE_SIZE)"
    by (intro exI [of _ ?w1] exI [of _ "?ps ! i"]) simp
next
  assume "memoryPool w = None"
  then show "\<exists>w0. getMemoryPool (of_nat i) w = Inr (MemoryPool_ctor 4096, w0)"
    using assms(2) i31 by (simp add: getMemoryPool_def memoryPool_array_def Let_def
        sint_of_nat_small)
next
  show "SlotSize (MemoryPool_ctor 4096) = 0"
    by (simp add: MemoryPool_ctor_def)
qed
qed

theorem initMemoryPool_configures_witness:
  "registry_ok example_world \<and> (2::nat) < MEMORY_POOL_NUM
   \<and> (\<exists>w1 p. initMemoryPool example_world = Inr w1 \<and> configured w1
          \<and> getMemoryPool 2 w1 = Inr (p, w1) \<and> sint (SlotSize p) = 24)
   \<and> (\<exists>w0. getMemoryPool 2 example_world = Inr (MemoryPool_ctor 4096, w0))"
proof -
  have i: "(2::nat) < MEMORY_POOL_NUM"
    by (simp add: MEMORY_POOL_NUM_def)
  have n: "memoryPool example_world = None"
    by (simp add: example_world_def)
  from initMemoryPool_configures [OF registry_ok_example i] registry_ok_example i n
  show ?thesis
    by (auto simp add: SLOT_BASE_SIZE_def)
qed

text \<open>
  Without the call of \<^verbatim>\<open>initMemoryPool\<close> the pool at index 0 has the slot size 0,
  not 8, and the first request through the router divides by it in \<^verbatim>\<open>padPointer\<close>.
\<close>

theorem lazy_configuration_counterexample:
  "getMemoryPool 0 example_world =
     Inr (MemoryPool_ctor 4096,
          example_world\<lparr>memoryPool := Some (replicate MEMORY_POOL_NUM (MemoryPool_ctor 4096))\<rparr>)
   \<and> sint (SlotSize (MemoryPool_ctor 4096)) = 0
   \<and> useMemory 0 8 example_world = Inl DivisionByZero"
  by (simp add: getMemoryPool_def memoryPool_array_def example_world_def example_heap_def
      MemoryPool_ctor_def MEMORY_POOL_NUM_def useMemory_def pool_allocate_def allocate_def
      popFreeList_eq allocateNewBlock_def operator_new_def padPointer_def Let_def
      MAX_SLOT_SIZE_def SLOT_BASE_SIZE_def size_t_to_int_def int_to_size_t_def)

subsection \<open>The size class of a request\<close>


lemma useMemory_pool:
  assumes "sz \<noteq> 0" and "sz \<le> of_nat MAX_SLOT_SIZE"
  shows "useMemory k sz w = pool_allocate k (index_of_size sz) w"
proof -
  have "\<not> sz \<le> 0" "\<not> of_nat MAX_SLOT_SIZE < sz"
    using assms by (simp_all add: not_less)
  then show ?thesis
    by (simp add: useMemory_def index_of_size_def)
qed

lemma freeMemory_pool:
  assumes "ptr \<noteq> 0" and "sz \<le> of_nat MAX_SLOT_SIZE"
  shows "freeMemory k ptr sz w = pool_deallocate k (index_of_size sz) ptr w"
proof -
  have "\<not> of_nat MAX_SLOT_SIZE < sz"
    using assms by (simp add: not_less)
  moreover have "sz + of_nat SLOT_BASE_SIZE - 1 = sz + 7"
    by (simp add: SLOT_BASE_SIZE_def)
  ultimately show ?thesis
    using assms(1) by (simp add: freeMemory_def index_of_size_def add.commute)
qed


subsection \<open>Construction and destruction in place\<close>

lemma pool_allocate_Inr:
  assumes "pool_allocate k index w = Inr (a, w1)"
  obtains p1 h1 where
    "0 \<le> sint index" "nat (sint index) < length (memoryPool_array w)"
    "allocate k (memoryPool_array w ! nat (sint index)) (memory w) = Inr (a, p1, h1)"
    "w1 = w\<lparr>memoryPool := Some ((memoryPool_array w)[nat (sint index) := p1]), memory := h1\<rparr>"
  using assms
  by (auto simp add: pool_allocate_def getMemoryPool_def set_pool_def Let_def memoryPool_array_def
      split: if_splits sum.splits prod.splits option.splits)

lemma pool_deallocate_Some:
  assumes "memoryPool w = Some ps" and "0 \<le> sint index" and "nat (sint index) < length ps"
    and "ptr \<noteq> 0"
  shows "pool_deallocate k index ptr w =
           Inr (w\<lparr>memoryPool := Some (ps[nat (sint index) := (ps ! nat (sint index))\<lparr>freeList := ptr\<rparr>]),
                  memory := (memory w)\<lparr>next_word :=
                     (next_word (memory w))(ptr \<mapsto> freeList (ps ! nat (sint index)))\<rparr>\<rparr>)"
  using assms
  by (simp add: pool_deallocate_def getMemoryPool_Some [OF assms(1)] deallocate_eq set_pool_def
      memoryPool_array_def)

lemma pool_allocate_Some_pop:
  assumes "memoryPool w = Some ps" and "0 \<le> sint index" and "nat (sint index) < length ps"
    and "freeList (ps ! nat (sint index)) \<noteq> 0"
    and "next_word (memory w) (freeList (ps ! nat (sint index))) = Some n"
  shows "pool_allocate k index w =
           Inr (freeList (ps ! nat (sint index)),
                w\<lparr>memoryPool := Some (ps[nat (sint index) := (ps ! nat (sint index))\<lparr>freeList := n\<rparr>])\<rparr>)"
  using assms
  by (simp add: pool_allocate_def getMemoryPool_Some [OF assms(1)] allocate_pop set_pool_def
      memoryPool_array_def)

lemma newElement_Inr:
  assumes "newElement k sizeof_T w = Inr (p, w1)"
  shows "useMemory k sizeof_T w = Inr (p, w1\<lparr>lifetime := lifetime w\<rparr>)"
    and "lifetime w1 = (if p = 0 then lifetime w else lifetime w @ [Constructed p])"
proof -
  from assms obtain w' where u: "useMemory k sizeof_T w = Inr (p, w')"
    and w1: "w1 = (if p \<noteq> 0 then w'\<lparr>lifetime := lifetime w' @ [Constructed p]\<rparr> else w')"
    by (auto simp add: newElement_def split: sum.splits prod.splits if_splits)
  have l: "lifetime w' = lifetime w"
    using u
    by (auto simp add: useMemory_def pool_allocate_def getMemoryPool_def set_pool_def Let_def
        split: if_splits sum.splits prod.splits)
  then have "w'\<lparr>lifetime := lifetime w\<rparr> = w'"
    by simp
  with u w1 l show "useMemory k sizeof_T w = Inr (p, w1\<lparr>lifetime := lifetime w\<rparr>)"
    by (cases "p = 0") simp_all
  from w1 l show "lifetime w1 = (if p = 0 then lifetime w else lifetime w @ [Constructed p])"
    by simp
qed

text \<open>
  Claim C8. When \<open>newElement\<close> returns \<open>p\<close>, the storage is what \<^verbatim>\<open>useMemory\<close> gives
  for \<^verbatim>\<open>sizeof(T)\<close>; one object is constructed at \<open>p\<close> when \<open>p\<close> is not null and none
  when it is. \<open>deleteElement\<close> of the null pointer does nothing. \<open>deleteElement\<close> of
  \<open>p\<close> succeeds, runs one destructor and then \<^verbatim>\<open>freeMemory(p, sizeof(T))\<close>, so that
  the round trip has added one construction and one destruction of the object at \<open>p\<close>.
  The storage is returned once: above 512 bytes the block is no longer live and the
  table is as before; up to 512 bytes the pool that served the request has \<open>p\<close> at
  the head of its free list, linked to the old head, and the next \<open>newElement\<close> of that
  size gets \<open>p\<close> again and leaves the table as it was after the first one.
\<close>

theorem typed_round_trip:
  assumes "newElement k sizeof_T w = Inr (p, w1)"
  shows "useMemory k sizeof_T w = Inr (p, w1\<lparr>lifetime := lifetime w\<rparr>)
    \<and> lifetime w1 = (if p = 0 then lifetime w else lifetime w @ [Constructed p])
    \<and> deleteElement k' sizeof_T 0 w1 = Inr w1
    \<and> (p \<noteq> 0 \<longrightarrow>
         (\<exists>w2. deleteElement k' sizeof_T p w1 = Inr w2
            \<and> freeMemory k' p sizeof_T (w1\<lparr>lifetime := lifetime w1 @ [Destroyed p]\<rparr>) = Inr w2
            \<and> lifetime w2 = lifetime w @ [Constructed p, Destroyed p]
            \<and> (if of_nat MAX_SLOT_SIZE < sizeof_T
                then memoryPool w2 = memoryPool w
                   \<and> live (memory w2) = filter (\<lambda>(b, n). b \<noteq> p) (live (memory w))
                   \<and> fresh (memory w2) = fresh (memory w1)
                   \<and> next_word (memory w2) = next_word (memory w)
                else memoryPool w2 =
                       Some ((memoryPool_array w1)
                              [nat (sint (index_of_size sizeof_T)) :=
                                 (memoryPool_array w1 ! nat (sint (index_of_size sizeof_T)))
                                   \<lparr>freeList := p\<rparr>])
                   \<and> memory w2 =
                       (memory w1)\<lparr>next_word := (next_word (memory w1))
                          (p \<mapsto> freeList (memoryPool_array w1 ! nat (sint (index_of_size sizeof_T))))\<rparr>
                   \<and> newElement k'' sizeof_T w2 =
                       Inr (p, w1\<lparr>memory := memory w2,
                                  lifetime := lifetime w2 @ [Constructed p]\<rparr>))))"
proof (intro conjI impI)
  show "useMemory k sizeof_T w = Inr (p, w1\<lparr>lifetime := lifetime w\<rparr>)"
    by (rule newElement_Inr(1) [OF assms])
  show lt: "lifetime w1 = (if p = 0 then lifetime w else lifetime w @ [Constructed p])"
    by (rule newElement_Inr(2) [OF assms])
  show "deleteElement k' sizeof_T 0 w1 = Inr w1"
    by (simp add: deleteElement_def)
  assume p: "p \<noteq> 0"
  let ?wd = "w1\<lparr>lifetime := lifetime w1 @ [Destroyed p]\<rparr>"
  have del: "deleteElement k' sizeof_T p w1 = freeMemory k' p sizeof_T ?wd"
    using p by (simp add: deleteElement_def)
  have use: "useMemory k sizeof_T w = Inr (p, w1\<lparr>lifetime := lifetime w\<rparr>)"
    by (rule newElement_Inr(1) [OF assms])
  have nz: "sizeof_T \<noteq> 0"
    using use p by (auto simp add: useMemory_def)
  show "\<exists>w2. deleteElement k' sizeof_T p w1 = Inr w2
            \<and> freeMemory k' p sizeof_T ?wd = Inr w2
            \<and> lifetime w2 = lifetime w @ [Constructed p, Destroyed p]
            \<and> (if of_nat MAX_SLOT_SIZE < sizeof_T
                then memoryPool w2 = memoryPool w
                   \<and> live (memory w2) = filter (\<lambda>(b, n). b \<noteq> p) (live (memory w))
                   \<and> fresh (memory w2) = fresh (memory w1)
                   \<and> next_word (memory w2) = next_word (memory w)
                else memoryPool w2 =
                       Some ((memoryPool_array w1)
                              [nat (sint (index_of_size sizeof_T)) :=
                                 (memoryPool_array w1 ! nat (sint (index_of_size sizeof_T)))
                                   \<lparr>freeList := p\<rparr>])
                   \<and> memory w2 =
                       (memory w1)\<lparr>next_word := (next_word (memory w1))
                          (p \<mapsto> freeList (memoryPool_array w1 ! nat (sint (index_of_size sizeof_T))))\<rparr>
                   \<and> newElement k'' sizeof_T w2 =
                       Inr (p, w1\<lparr>memory := memory w2,
                                  lifetime := lifetime w2 @ [Constructed p]\<rparr>))"
  proof (cases "of_nat MAX_SLOT_SIZE < sizeof_T")
    case True
    with use nz obtain h1 where new: "operator_new sizeof_T (memory w) = Inr (p, h1)"
      and w1: "w1\<lparr>lifetime := lifetime w\<rparr> = w\<lparr>memory := h1\<rparr>"
      by (auto simp add: useMemory_def split: sum.splits prod.splits)
    from arg_cong [OF w1, of memory] arg_cong [OF w1, of memoryPool]
    have m1: "memory w1 = h1" "memoryPool w1 = memoryPool w"
      by simp_all
    from new obtain bs where h1: "fresh (memory w) = p # bs"
      "h1 = (memory w)\<lparr>fresh := bs, live := (p, sizeof_T) # live (memory w)\<rparr>"
      by (auto simp add: operator_new_def split: list.splits)
    let ?h2 = "h1\<lparr>live := filter (\<lambda>(b, n). b \<noteq> p) (live h1)\<rparr>"
    have "operator_delete p h1 = Inr ?h2"
      by (simp add: operator_delete_def h1)
    with True p have "freeMemory k' p sizeof_T ?wd = Inr (?wd\<lparr>memory := ?h2\<rparr>)"
      by (simp add: freeMemory_def m1)
    with del True p lt m1 h1 show ?thesis
      by (intro exI [of _ "?wd\<lparr>memory := ?h2\<rparr>"]) simp
  next
    case False
    then have le: "sizeof_T \<le> of_nat MAX_SLOT_SIZE"
      by simp
    let ?ix = "index_of_size sizeof_T"
    let ?i = "nat (sint ?ix)"
    from use have "pool_allocate k ?ix w = Inr (p, w1\<lparr>lifetime := lifetime w\<rparr>)"
      by (simp only: useMemory_pool [OF nz le])
    then obtain p1 h1 where ix: "0 \<le> sint ?ix" "?i < length (memoryPool_array w)"
      and al: "allocate k (memoryPool_array w ! ?i) (memory w) = Inr (p, p1, h1)"
      and w1: "w1\<lparr>lifetime := lifetime w\<rparr> =
                 w\<lparr>memoryPool := Some ((memoryPool_array w)[?i := p1]), memory := h1\<rparr>"
      by (rule pool_allocate_Inr)
    let ?ps1 = "(memoryPool_array w)[?i := p1]"
    from arg_cong [OF w1, of memory] arg_cong [OF w1, of memoryPool]
    have m1: "memory w1 = h1" "memoryPool w1 = Some ?ps1"
      by simp_all
    then have arr: "memoryPool_array w1 = ?ps1"
      by (simp add: memoryPool_array_def)
    have len: "?i < length ?ps1"
      using ix by simp
    have at: "?ps1 ! ?i = p1"
      using ix by simp
    let ?w2 = "?wd\<lparr>memoryPool := Some (?ps1[?i := p1\<lparr>freeList := p\<rparr>]),
                  memory := h1\<lparr>next_word := (next_word h1)(p \<mapsto> freeList p1)\<rparr>\<rparr>"
    have "memoryPool ?wd = Some ?ps1"
      using m1 by simp
    from pool_deallocate_Some [OF this ix(1) len p, of k']
    have "pool_deallocate k' ?ix p ?wd = Inr ?w2"
      by (simp add: at m1)
    then have free: "freeMemory k' p sizeof_T ?wd = Inr ?w2"
      by (simp only: freeMemory_pool [OF p le])
    let ?ps2 = "?ps1[?i := p1\<lparr>freeList := p\<rparr>]"
    have mp2: "memoryPool ?w2 = Some ?ps2"
      by simp
    have len2: "?i < length ?ps2"
      using ix by simp
    have at2: "?ps2 ! ?i = p1\<lparr>freeList := p\<rparr>"
      using ix by simp
    have fl: "freeList (?ps2 ! ?i) \<noteq> 0"
      using p by (simp only: at2) simp
    have nx: "next_word (memory ?w2) (freeList (?ps2 ! ?i)) = Some (freeList p1)"
      by (simp only: at2) simp
    have undo: "?ps2[?i := (?ps2 ! ?i)\<lparr>freeList := freeList p1\<rparr>] = ?ps1"
      by (simp only: at2) simp
    have "pool_allocate k'' ?ix ?w2 = Inr (freeList (?ps2 ! ?i), ?w2\<lparr>memoryPool := Some ?ps1\<rparr>)"
      using pool_allocate_Some_pop [OF mp2 ix(1) len2 fl nx, of k''] by (simp only: undo)
    moreover have "freeList (?ps2 ! ?i) = p"
      by (simp only: at2) simp
    ultimately have "pool_allocate k'' ?ix ?w2 = Inr (p, ?w2\<lparr>memoryPool := Some ?ps1\<rparr>)"
      by (simp only:)
    then have "useMemory k'' sizeof_T ?w2 = Inr (p, ?w2\<lparr>memoryPool := Some ?ps1\<rparr>)"
      by (simp only: useMemory_pool [OF nz le])
    then have again: "newElement k'' sizeof_T ?w2 =
        Inr (p, w1\<lparr>memory := memory ?w2, lifetime := lifetime ?w2 @ [Constructed p]\<rparr>)"
      using p m1 by (simp add: newElement_def)
    from del free False p lt again show ?thesis
      by (intro exI [of _ ?w2]) (simp add: arr at m1)
  qed
qed

theorem typed_round_trip_witness:
  "\<exists>w1 w2 w3. newElement 0 20 configured_world = Inr (0x10008, w1)
      \<and> lifetime w1 = [Constructed 0x10008]
      \<and> deleteElement 0 20 0x10008 w1 = Inr w2
      \<and> lifetime w2 = [Constructed 0x10008, Destroyed 0x10008]
      \<and> newElement 0 20 w2 = Inr (0x10008, w3)"
proof -
  have "\<exists>w1. newElement 0 20 configured_world = Inr (0x10008, w1)"
    by (simp add: newElement_def useMemory_def pool_allocate_def getMemoryPool_def
        memoryPool_array_def configured_world_def example_heap_def init_state_def
        MemoryPool_ctor_def allocate_def popFreeList_eq allocateNewBlock_def operator_new_def
        padPointer_def MAX_SLOT_SIZE_def SLOT_BASE_SIZE_def MEMORY_POOL_NUM_def
        size_t_to_int_def int_to_size_t_def sizeof_Slot_def Let_def)
  then obtain w1 where n: "newElement 0 20 configured_world = Inr (0x10008, w1)" ..
  have l: "lifetime configured_world = []" and s: "\<not> of_nat MAX_SLOT_SIZE < (20 :: size_t)"
    by (simp_all add: configured_world_def MAX_SLOT_SIZE_def)
  from typed_round_trip [OF n, of 0 0] n l s show ?thesis
    by auto
qed

subsection \<open>The invariant of a pool\<close>

text \<open>The word operations of \<open>allocate\<close>, read as natural numbers.\<close>

lemma unat_plus:
  fixes x y :: "64 word"
  assumes "unat x + unat y < 2 ^ 64"
  shows "unat (x + y) = unat x + unat y"
  using assms unat_add_lem [of x y] by simp

lemma unat_minus:
  fixes x y :: "64 word"
  assumes "unat y \<le> unat x"
  shows "unat (x - y) = unat x - unat y"
  using assms by (simp add: unat_sub word_le_nat_alt)

lemma unat_step:
  fixes S :: size_t
  shows "unat (sizeof_Slot * (S div sizeof_Slot)) = 8 * (unat S div 8)"
proof -
  have "unat (8 :: size_t) * unat (S div 8) < 2 ^ 64"
    using unsigned_less [of S, where 'a = nat] by (simp add: unat_div)
  then have "unat (8 * (S div 8)) = unat (8 :: size_t) * unat (S div 8)"
    using unat_mult_lem [of "8 :: size_t" "S div 8"] by simp
  then show ?thesis
    by (simp add: sizeof_Slot_def unat_div)
qed

lemma padPointer_nat:
  assumes "align \<noteq> 0"
  shows "\<exists>pad. padPointer d align = Inr pad
           \<and> unat pad = (if unat d mod unat align = 0 then 0
                          else unat align - unat d mod unat align)"
proof -
  have le: "unat (d mod align) \<le> unat align"
    using assms by (simp add: unat_mod unat_gt_0 mod_le_divisor)
  have z: "d mod align = 0 \<longleftrightarrow> unat d mod unat align = 0"
    by (simp add: unat_mod flip: unat_eq_0)
  show ?thesis
    using assms unat_minus [OF le] by (simp add: padPointer_def Let_def z unat_mod)
qed

lemma padPointer_eq:
  "align \<noteq> 0 \<Longrightarrow>
   padPointer d align = Inr (if d mod align = 0 then 0 else align - d mod align)"
  by (simp add: padPointer_def Let_def)

lemma allocateNewBlock_eq:
  assumes "int_to_size_t (SlotSize p) \<noteq> 0" and "fresh h = B # rest"
  shows "allocateNewBlock p h =
           Inr (p\<lparr>firstBlock := B,
                  curSlot := B + sizeof_Slot
                    + (if (B + sizeof_Slot) mod int_to_size_t (SlotSize p) = 0 then 0
                       else int_to_size_t (SlotSize p)
                              - (B + sizeof_Slot) mod int_to_size_t (SlotSize p)),
                  lastSlot := B + int_to_size_t (BlockSize p) - int_to_size_t (SlotSize p) + 1\<rparr>,
                h\<lparr>fresh := rest, live := (B, int_to_size_t (BlockSize p)) # live h,
                  next_word := (next_word h)(B \<mapsto> firstBlock p)\<rparr>)"
  using assms by (simp add: allocateNewBlock_def operator_new_def padPointer_eq Let_def)

lemma step_le: "8 * (m div 8) \<le> (m::nat)"
  by simp

lemma step_dvd:
  fixes m :: nat
  assumes "8 dvd m \<or> m dvd 8"
  shows "m dvd 8 * (m div 8)"
proof (cases "8 dvd m")
  case True
  then show ?thesis
    by simp
next
  case False
  with assms have "m dvd 8"
    by simp
  then have "m \<le> 8"
    by (rule dvd_imp_le) simp
  with False have "m < 8"
    by (cases "m = 8") auto
  then show ?thesis
    by simp
qed

lemma pad_dvd:
  fixes d m :: nat
  assumes "0 < m"
  shows "m dvd d + (if d mod m = 0 then 0 else m - d mod m)"
proof (cases "d mod m = 0")
  case True
  then show ?thesis
    by auto
next
  case False
  define q r where "q = m * (d div m)" and "r = d mod m"
  have "r < m" "d = q + r"
    using assms by (simp_all add: q_def r_def)
  then have "d + (m - r) = q + m"
    by linarith
  with False show ?thesis
    by (simp add: q_def r_def)
qed

lemma power2_dvd_8:
  fixes n :: nat
  shows "8 dvd (2::nat) ^ n \<or> (2::nat) ^ n dvd 8"
proof (cases "3 \<le> n")
  case True
  then have "(2::nat) ^ 3 dvd 2 ^ n"
    by (rule le_imp_power_dvd)
  then show ?thesis
    by simp
next
  case False
  then have "n \<le> 3"
    by simp
  then have "(2::nat) ^ n dvd 2 ^ 3"
    by (rule le_imp_power_dvd)
  then show ?thesis
    by simp
qed

text \<open>The three ways in which \<open>allocate\<close> returns an address.\<close>

lemma allocate_cases:
  assumes "allocate k p h = Inr (a, p1, h1)"
  obtains
    (pop) n where "freeList p \<noteq> 0" "next_word h (freeList p) = Some n"
      "a = freeList p" "p1 = p\<lparr>freeList := n\<rparr>" "h1 = h"
  | (bump) "freeList p = 0" "curSlot p < lastSlot p" "a = curSlot p"
      "p1 = p\<lparr>mutexForBlock := Suc (mutexForBlock p),
              curSlot := curSlot p + sizeof_Slot * (int_to_size_t (SlotSize p) div sizeof_Slot)\<rparr>"
      "h1 = h"
  | (grow) B rest pad where "freeList p = 0" "lastSlot p \<le> curSlot p" "fresh h = B # rest"
      "padPointer (B + sizeof_Slot) (int_to_size_t (SlotSize p)) = Inr pad"
      "a = B + sizeof_Slot + pad"
      "p1 = p\<lparr>mutexForBlock := Suc (mutexForBlock p), firstBlock := B,
              curSlot := B + sizeof_Slot + pad
                         + sizeof_Slot * (int_to_size_t (SlotSize p) div sizeof_Slot),
              lastSlot := B + int_to_size_t (BlockSize p) - int_to_size_t (SlotSize p) + 1\<rparr>"
      "h1 = h\<lparr>fresh := rest, live := (B, int_to_size_t (BlockSize p)) # live h,
              next_word := (next_word h)(B \<mapsto> firstBlock p)\<rparr>"
proof (cases "freeList p = 0")
  case False
  with assms obtain n where "next_word h (freeList p) = Some n"
    by (auto simp add: allocate_def popFreeList_eq split: option.splits)
  with False assms show ?thesis
    by (intro pop [of n]) (simp_all add: allocate_pop)
next
  case True
  show ?thesis
  proof (cases "curSlot p < lastSlot p")
    case lt: True
    from allocate_bump [OF True lt, of k h] assms True lt show ?thesis
      by (intro bump) simp_all
  next
    case False
    then have ge: "lastSlot p \<le> curSlot p"
      by simp
    from allocate_grow [OF True ge, of k h] assms
    obtain B rest pad where "fresh h = B # rest"
      "padPointer (B + sizeof_Slot) (int_to_size_t (SlotSize p)) = Inr pad"
      "a = B + sizeof_Slot + pad"
      "p1 = p\<lparr>mutexForBlock := Suc (mutexForBlock p), firstBlock := B,
              curSlot := B + sizeof_Slot + pad
                         + sizeof_Slot * (int_to_size_t (SlotSize p) div sizeof_Slot),
              lastSlot := B + int_to_size_t (BlockSize p) - int_to_size_t (SlotSize p) + 1\<rparr>"
      "h1 = h\<lparr>fresh := rest, live := (B, int_to_size_t (BlockSize p)) # live h,
              next_word := (next_word h)(B \<mapsto> firstBlock p)\<rparr>"
      by (auto simp add: allocateNewBlock_def operator_new_def Let_def
          split: sum.splits list.splits prod.splits)
    with True ge show ?thesis
      by (intro grow [of B rest pad])
  qed
qed

lemma allocate_sizes:
  assumes "allocate k p h = Inr (a, p1, h1)"
  shows "SlotSize p1 = SlotSize p \<and> BlockSize p1 = BlockSize p"
  using assms by (cases rule: allocate_cases) simp_all

lemma run_sizes:
  assumes "run cs rs p h = Inr (rs1, p1, h1)"
  shows "SlotSize p1 = SlotSize p \<and> BlockSize p1 = BlockSize p"
  using assms
proof (induction cs arbitrary: rs p h)
  case Nil
  then show ?case
    by simp
next
  case (Cons c cs)
  show ?case
  proof (cases c)
    case (Allocate k)
    with Cons.prems obtain a p2 h2 where a: "allocate k p h = Inr (a, p2, h2)"
      and r: "run cs (rs @ [a]) p2 h2 = Inr (rs1, p1, h1)"
      by (auto split: sum.splits)
    from Cons.IH [OF r] allocate_sizes [OF a] show ?thesis
      by simp
  next
    case (Deallocate k ptr)
    with Cons.prems have "run cs rs (fst (deallocate k ptr p h)) (snd (deallocate k ptr p h))
        = Inr (rs1, p1, h1)"
      by (simp add: case_prod_beta)
    from Cons.IH [OF this] show ?thesis
      by (simp add: deallocate_eq)
  qed
qed

lemma apart_pair:
  assumes "apart n bs" and "b \<in> set bs" and "c \<in> set bs" and "b \<noteq> c"
  shows "unat b + n \<le> unat c \<or> unat c + n \<le> unat b"
  using assms by (induction bs) auto

lemma pool_invD:
  assumes "pool_inv p h rs"
  shows "0 < slot_size p"
    and "2 * slot_size p + 7 \<le> block_size p"
    and "\<And>b. b \<in> set (blocks h) \<Longrightarrow> unat b + block_size p < 2 ^ 64"
    and "apart (block_size p) (blocks h)"
    and "\<And>a v. next_word h a = Some v \<Longrightarrow> a \<in> set (blocks h) \<or> v = 0 \<or> v \<in> set rs"
    and "freeList p = 0 \<or> freeList p \<in> set rs"
    and "\<And>a. a \<in> set rs \<Longrightarrow> inside p h a"
    and "cursor_ok p h"
    and "8 dvd slot_size p \<or> slot_size p dvd 8 \<Longrightarrow> slot_size p dvd unat (curSlot p)"
    and "\<And>a. 8 dvd slot_size p \<or> slot_size p dvd 8 \<Longrightarrow> a \<in> set rs \<Longrightarrow> slot_size p dvd unat a"
  using assms unfolding pool_inv_def by blast+

lemma pool_invI:
  assumes "0 < slot_size p"
    and "2 * slot_size p + 7 \<le> block_size p"
    and "\<And>b. b \<in> set (blocks h) \<Longrightarrow> unat b + block_size p < 2 ^ 64"
    and "apart (block_size p) (blocks h)"
    and "\<And>a v. next_word h a = Some v \<Longrightarrow> a \<in> set (blocks h) \<or> v = 0 \<or> v \<in> set rs"
    and "freeList p = 0 \<or> freeList p \<in> set rs"
    and "\<And>a. a \<in> set rs \<Longrightarrow> inside p h a"
    and "cursor_ok p h"
    and "8 dvd slot_size p \<or> slot_size p dvd 8 \<Longrightarrow> slot_size p dvd unat (curSlot p)"
    and "\<And>a. 8 dvd slot_size p \<or> slot_size p dvd 8 \<Longrightarrow> a \<in> set rs \<Longrightarrow> slot_size p dvd unat a"
  shows "pool_inv p h rs"
  using assms unfolding pool_inv_def by blast

lemma live_in_blocks: "b \<in> fst ` set (live h) \<Longrightarrow> b \<in> set (blocks h)"
  by (auto simp add: blocks_def)

lemma insideI:
  assumes "b \<in> fst ` set (live h)" and "unat b + 8 \<le> unat a"
    and "unat a + slot_size p \<le> unat b + block_size p"
  shows "inside p h a"
  unfolding inside_def using assms by blast

lemma not_block_head:
  assumes "pool_inv p h rs" and "a \<in> set rs"
  shows "a \<notin> set (blocks h)"
proof
  assume a: "a \<in> set (blocks h)"
  from pool_invD(7) [OF assms] obtain b where b: "b \<in> fst ` set (live h)"
    "unat b + 8 \<le> unat a" "unat a + slot_size p \<le> unat b + block_size p"
    unfolding inside_def by blast
  from b(2) have "a \<noteq> b"
    by auto
  from apart_pair [OF pool_invD(4) [OF assms(1)] a live_in_blocks [OF b(1)] this]
    b pool_invD(1) [OF assms(1)] show False
    by linarith
qed

lemma pool_inv_set:
  "set rs = set rs' \<Longrightarrow> pool_inv p h rs \<Longrightarrow> pool_inv p h rs'"
  by (simp add: pool_inv_def)

lemma sizes_frame [simp]:
  "slot_size (p\<lparr>freeList := n\<rparr>) = slot_size p"
  "block_size (p\<lparr>freeList := n\<rparr>) = block_size p"
  "slot_size (p\<lparr>mutexForBlock := k\<rparr>) = slot_size p"
  "block_size (p\<lparr>mutexForBlock := k\<rparr>) = block_size p"
  "slot_size (p\<lparr>curSlot := c\<rparr>) = slot_size p"
  "block_size (p\<lparr>curSlot := c\<rparr>) = block_size p"
  "slot_size (p\<lparr>lastSlot := c\<rparr>) = slot_size p"
  "block_size (p\<lparr>lastSlot := c\<rparr>) = block_size p"
  "slot_size (p\<lparr>firstBlock := c\<rparr>) = slot_size p"
  "block_size (p\<lparr>firstBlock := c\<rparr>) = block_size p"
  by (simp_all add: slot_size_def block_size_def)

lemma inside_frame [simp]:
  "inside (p\<lparr>freeList := n\<rparr>) h a = inside p h a"
  "inside (p\<lparr>mutexForBlock := k\<rparr>) h a = inside p h a"
  "inside (p\<lparr>curSlot := c\<rparr>) h a = inside p h a"
  "inside (p\<lparr>lastSlot := c\<rparr>) h a = inside p h a"
  "inside (p\<lparr>firstBlock := c\<rparr>) h a = inside p h a"
  "inside p (h\<lparr>next_word := f\<rparr>) a = inside p h a"
  by (simp_all add: inside_def)

lemma cursor_ok_frame [simp]:
  "cursor_ok (p\<lparr>freeList := n\<rparr>) h = cursor_ok p h"
  "cursor_ok (p\<lparr>mutexForBlock := k\<rparr>) h = cursor_ok p h"
  "cursor_ok p (h\<lparr>next_word := f\<rparr>) = cursor_ok p h"
  by (simp_all add: cursor_ok_def)

lemma blocks_frame [simp]:
  "blocks (h\<lparr>next_word := f\<rparr>) = blocks h"
  by (simp add: blocks_def)

text \<open>Each call keeps the invariant.\<close>

lemma pool_inv_pop:
  assumes "pool_inv p h rs" and "freeList p \<noteq> 0" and "next_word h (freeList p) = Some n"
  shows "pool_inv (p\<lparr>freeList := n\<rparr>) h (rs @ [freeList p])"
proof -
  note inv = pool_invD [OF assms(1)]
  from inv(6) assms(2) have f: "freeList p \<in> set rs"
    by simp
  then have s: "set rs = set (rs @ [freeList p])"
    by auto
  from not_block_head [OF assms(1) f] inv(5) [OF assms(3)] have n: "n = 0 \<or> n \<in> set rs"
    by simp
  have "pool_inv (p\<lparr>freeList := n\<rparr>) h rs"
  proof (rule pool_invI)
    show "freeList (p\<lparr>freeList := n\<rparr>) = 0 \<or> freeList (p\<lparr>freeList := n\<rparr>) \<in> set rs"
      using n by simp
  qed (use inv in simp_all)
  from pool_inv_set [OF s this] show ?thesis .
qed

lemma pool_inv_deallocate:
  assumes "pool_inv p h rs" and "ptr = 0 \<or> ptr \<in> set rs"
    and "deallocate k ptr p h = (p1, h1)"
  shows "pool_inv p1 h1 rs"
proof (cases "ptr = 0")
  case True
  with assms show ?thesis
    by (simp add: deallocate_eq)
next
  case False
  note inv = pool_invD [OF assms(1)]
  from False assms(2) have ptr: "ptr \<in> set rs"
    by simp
  from False assms(3) have p1: "p1 = p\<lparr>freeList := ptr\<rparr>"
    and h1: "h1 = h\<lparr>next_word := (next_word h)(ptr \<mapsto> freeList p)\<rparr>"
    by (simp_all add: deallocate_eq)
  show ?thesis
    unfolding p1 h1
  proof (rule pool_invI)
    fix a v
    assume "next_word (h\<lparr>next_word := (next_word h)(ptr \<mapsto> freeList p)\<rparr>) a = Some v"
    then show "a \<in> set (blocks (h\<lparr>next_word := (next_word h)(ptr \<mapsto> freeList p)\<rparr>))
                \<or> v = 0 \<or> v \<in> set rs"
      using inv(5) [of a v] inv(6) by (auto split: if_splits)
  next
    show "freeList (p\<lparr>freeList := ptr\<rparr>) = 0 \<or> freeList (p\<lparr>freeList := ptr\<rparr>) \<in> set rs"
      using ptr by simp
  qed (use inv in simp_all)
qed

lemma pool_inv_bump:
  assumes "pool_inv p h rs" and "freeList p = 0" and "curSlot p < lastSlot p"
  shows "pool_inv
           (p\<lparr>mutexForBlock := Suc (mutexForBlock p),
              curSlot := curSlot p + sizeof_Slot * (int_to_size_t (SlotSize p) div sizeof_Slot)\<rparr>)
           h (rs @ [curSlot p])"
proof -
  note inv = pool_invD [OF assms(1)]
  define m where "m = slot_size p"
  define bs where "bs = block_size p"
  define st where "st = sizeof_Slot * (int_to_size_t (SlotSize p) div sizeof_Slot)"
  have lt: "unat (curSlot p) < unat (lastSlot p)"
    using assms(3) by (simp add: word_less_nat_alt)
  then have "\<not> (curSlot p = 0 \<and> lastSlot p = 0)"
    by auto
  with inv(8) have B: "firstBlock p \<in> fst ` set (live h)"
    and lo: "unat (firstBlock p) + 8 \<le> unat (curSlot p)"
    and la: "unat (lastSlot p) = unat (firstBlock p) + bs - m + 1"
    unfolding cursor_ok_def bs_def m_def by blast+
  have sz: "0 < m" "2 * m + 7 \<le> bs"
    using inv(1,2) by (simp_all add: m_def bs_def)
  have top: "unat (firstBlock p) + bs < 2 ^ 64"
    using inv(3) [OF live_in_blocks [OF B]] by (simp add: bs_def)
  have fit: "unat (curSlot p) + m \<le> unat (firstBlock p) + bs"
    using lt la sz by linarith
  have ust: "unat st = 8 * (m div 8)"
    by (simp add: st_def unat_step m_def slot_size_def)
  then have stm: "unat st \<le> m"
    by simp
  have "unat (curSlot p) + unat st < 2 ^ 64"
    using fit stm top by linarith
  from unat_plus [OF this] have new: "unat (curSlot p + st) = unat (curSlot p) + unat st" .
  show ?thesis
    unfolding st_def [symmetric]
  proof (rule pool_invI)
    fix a
    assume "a \<in> set (rs @ [curSlot p])"
    then consider "a \<in> set rs" | "a = curSlot p"
      by auto
    then show "inside (p\<lparr>mutexForBlock := Suc (mutexForBlock p), curSlot := curSlot p + st\<rparr>) h a"
    proof cases
      case 1
      with inv(7) show ?thesis
        by simp
    next
      case 2
      have "inside p h (curSlot p)"
        using B lo fit unfolding m_def bs_def by (rule insideI)
      with 2 show ?thesis
        by simp
    qed
  next
    show "cursor_ok (p\<lparr>mutexForBlock := Suc (mutexForBlock p), curSlot := curSlot p + st\<rparr>) h"
      using B lo la fit stm new by (simp add: cursor_ok_def m_def bs_def)
  next
    assume al: "8 dvd slot_size (p\<lparr>mutexForBlock := Suc (mutexForBlock p), curSlot := curSlot p + st\<rparr>)
          \<or> slot_size (p\<lparr>mutexForBlock := Suc (mutexForBlock p), curSlot := curSlot p + st\<rparr>) dvd 8"
    then have al': "8 dvd m \<or> m dvd 8"
      by (simp add: m_def)
    from step_dvd [OF this] have "m dvd unat st"
      by (simp add: ust)
    moreover have "m dvd unat (curSlot p)"
      using inv(9) al' by (simp add: m_def)
    ultimately show "slot_size (p\<lparr>mutexForBlock := Suc (mutexForBlock p), curSlot := curSlot p + st\<rparr>)
        dvd unat (curSlot (p\<lparr>mutexForBlock := Suc (mutexForBlock p), curSlot := curSlot p + st\<rparr>))"
      by (simp add: new m_def)
  next
    fix a
    assume al: "8 dvd slot_size (p\<lparr>mutexForBlock := Suc (mutexForBlock p), curSlot := curSlot p + st\<rparr>)
          \<or> slot_size (p\<lparr>mutexForBlock := Suc (mutexForBlock p), curSlot := curSlot p + st\<rparr>) dvd 8"
      and a: "a \<in> set (rs @ [curSlot p])"
    from al have al': "8 dvd slot_size p \<or> slot_size p dvd 8"
      by simp
    from a consider "a \<in> set rs" | "a = curSlot p"
      by auto
    then show "slot_size (p\<lparr>mutexForBlock := Suc (mutexForBlock p), curSlot := curSlot p + st\<rparr>)
        dvd unat a"
    proof cases
      case 1
      with inv(10) [OF al'] show ?thesis
        by simp
    next
      case 2
      with inv(9) [OF al'] show ?thesis
        by simp
    qed
  next
    fix a v
    assume "next_word h a = Some v"
    from inv(5) [OF this] show "a \<in> set (blocks h) \<or> v = 0 \<or> v \<in> set (rs @ [curSlot p])"
      by auto
  next
    show "freeList (p\<lparr>mutexForBlock := Suc (mutexForBlock p), curSlot := curSlot p + st\<rparr>) = 0
       \<or> freeList (p\<lparr>mutexForBlock := Suc (mutexForBlock p), curSlot := curSlot p + st\<rparr>)
           \<in> set (rs @ [curSlot p])"
      using assms(2) by simp
  qed (use inv in simp_all)
qed

lemma pool_inv_grow:
  assumes "pool_inv p h rs" and "freeList p = 0" and "fresh h = B # rest"
    and "padPointer (B + sizeof_Slot) (int_to_size_t (SlotSize p)) = Inr pad"
  shows "pool_inv
           (p\<lparr>mutexForBlock := Suc (mutexForBlock p), firstBlock := B,
              curSlot := B + sizeof_Slot + pad
                         + sizeof_Slot * (int_to_size_t (SlotSize p) div sizeof_Slot),
              lastSlot := B + int_to_size_t (BlockSize p) - int_to_size_t (SlotSize p) + 1\<rparr>)
           (h\<lparr>fresh := rest, live := (B, int_to_size_t (BlockSize p)) # live h,
              next_word := (next_word h)(B \<mapsto> firstBlock p)\<rparr>)
           (rs @ [B + sizeof_Slot + pad])"
proof -
  note inv = pool_invD [OF assms(1)]
  define m where "m = slot_size p"
  define bs where "bs = block_size p"
  define st where "st = sizeof_Slot * (int_to_size_t (SlotSize p) div sizeof_Slot)"
  define a where "a = B + sizeof_Slot + pad"
  define h1 where "h1 = h\<lparr>fresh := rest, live := (B, int_to_size_t (BlockSize p)) # live h,
              next_word := (next_word h)(B \<mapsto> firstBlock p)\<rparr>"
  define p1 where "p1 = p\<lparr>mutexForBlock := Suc (mutexForBlock p), firstBlock := B,
              curSlot := a + st,
              lastSlot := B + int_to_size_t (BlockSize p) - int_to_size_t (SlotSize p) + 1\<rparr>"
  have sz: "0 < m" "2 * m + 7 \<le> bs"
    using inv(1,2) by (simp_all add: m_def bs_def)
  have um: "unat (int_to_size_t (SlotSize p)) = m" and ub: "unat (int_to_size_t (BlockSize p)) = bs"
    by (simp_all add: m_def bs_def slot_size_def block_size_def)
  have Bb: "B \<in> set (blocks h)"
    by (simp add: blocks_def assms(3))
  have top: "unat B + bs < 2 ^ 64"
    using inv(3) [OF Bb] by (simp add: bs_def)
  have bl: "blocks h1 = blocks h" and lv: "fst ` set (live h1) = insert B (fst ` set (live h))"
    and nw: "next_word h1 = (next_word h)(B \<mapsto> firstBlock p)"
    by (simp_all add: h1_def blocks_def assms(3))
  have s1: "slot_size p1 = m" "block_size p1 = bs"
    by (simp_all add: p1_def m_def bs_def slot_size_def block_size_def)
  \<comment> \<open>the addresses as natural numbers\<close>
  have "unat B + unat (8 :: addr) < 2 ^ 64"
    using top sz by simp
  from unat_plus [OF this] have d: "unat (B + sizeof_Slot) = unat B + 8"
    by (simp add: sizeof_Slot_def)
  have nz: "int_to_size_t (SlotSize p) \<noteq> 0"
    using sz(1) um by auto
  from padPointer_nat [OF nz, of "B + sizeof_Slot"] assms(4)
  have upad: "unat pad = (if (unat B + 8) mod m = 0 then 0 else m - (unat B + 8) mod m)"
    by (simp add: d um)
  then have padm: "unat pad < m"
    using sz(1) by (simp split: if_splits)
  have "unat (B + sizeof_Slot) + unat pad < 2 ^ 64"
    using d padm top sz by linarith
  from unat_plus [OF this] have ua: "unat a = unat B + 8 + unat pad"
    by (simp add: a_def d)
  have ust: "unat st = 8 * (m div 8)"
    by (simp add: st_def unat_step um)
  then have stm: "unat st \<le> m"
    by simp
  have "unat a + unat st < 2 ^ 64"
    using ua padm stm top sz by linarith
  from unat_plus [OF this] have uc: "unat (a + st) = unat a + unat st" .
  have "unat B + unat (int_to_size_t (BlockSize p)) < 2 ^ 64"
    using top by (simp add: ub)
  from unat_plus [OF this] have e1: "unat (B + int_to_size_t (BlockSize p)) = unat B + bs"
    by (simp add: ub)
  have "unat (int_to_size_t (SlotSize p)) \<le> unat (B + int_to_size_t (BlockSize p))"
    using e1 um sz by simp
  from unat_minus [OF this]
  have e2: "unat (B + int_to_size_t (BlockSize p) - int_to_size_t (SlotSize p)) = unat B + bs - m"
    by (simp add: e1 um)
  have "unat (B + int_to_size_t (BlockSize p) - int_to_size_t (SlotSize p)) + unat (1 :: addr) < 2 ^ 64"
    using e2 top sz by simp
  from unat_plus [OF this]
  have ul: "unat (B + int_to_size_t (BlockSize p) - int_to_size_t (SlotSize p) + 1) = unat B + bs - m + 1"
    by (simp add: e2)
  have am: "m dvd unat a"
    using pad_dvd [OF sz(1), of "unat B + 8"] by (simp add: ua upad add.assoc)
  have ins: "inside p1 h1 a"
  proof (rule insideI)
    show "B \<in> fst ` set (live h1)"
      by (simp add: lv)
    show "unat B + 8 \<le> unat a"
      by (simp add: ua)
    show "unat a + slot_size p1 \<le> unat B + block_size p1"
      using ua padm sz by (simp add: s1)
  qed
  have old: "inside p1 h1 c" if "c \<in> set rs" for c
    using inv(7) [OF that] unfolding inside_def s1 lv m_def bs_def by blast
  have "pool_inv p1 h1 (rs @ [a])"
  proof (rule pool_invI)
    show "0 < slot_size p1" "2 * slot_size p1 + 7 \<le> block_size p1"
      using sz by (simp_all add: s1)
    show "unat b + block_size p1 < 2 ^ 64" if "b \<in> set (blocks h1)" for b
      using that inv(3) [of b] by (simp add: bl s1 bs_def)
    show "apart (block_size p1) (blocks h1)"
      using inv(4) by (simp add: bl s1 bs_def)
    show "c \<in> set (blocks h1) \<or> v = 0 \<or> v \<in> set (rs @ [a])" if "next_word h1 c = Some v" for c v
    proof (cases "c = B")
      case True
      with Bb show ?thesis
        by (simp add: bl)
    next
      case False
      with that have "next_word h c = Some v"
        by (simp add: nw)
      from inv(5) [OF this] show ?thesis
        by (auto simp add: bl)
    qed
    show "freeList p1 = 0 \<or> freeList p1 \<in> set (rs @ [a])"
      using assms(2) by (simp add: p1_def)
    show "inside p1 h1 c" if "c \<in> set (rs @ [a])" for c
      using that ins old by auto
    show "cursor_ok p1 h1"
      unfolding cursor_ok_def s1 lv
      using ua uc ul padm stm sz by (simp add: p1_def)
    show "slot_size p1 dvd unat (curSlot p1)" if "8 dvd slot_size p1 \<or> slot_size p1 dvd 8"
    proof -
      from that have "m dvd unat st"
        using step_dvd [of m] by (simp add: s1 ust)
      moreover have "curSlot p1 = a + st"
        by (simp add: p1_def)
      ultimately show ?thesis
        using am by (simp only: s1 uc dvd_add)
    qed
    show "slot_size p1 dvd unat c"
      if "8 dvd slot_size p1 \<or> slot_size p1 dvd 8" and "c \<in> set (rs @ [a])" for c
    proof -
      from that(1) have al: "8 dvd slot_size p \<or> slot_size p dvd 8"
        by (simp add: s1 m_def)
      from that(2) consider "c \<in> set rs" | "c = a"
        by auto
      then show ?thesis
      proof cases
        case 1
        from inv(10) [OF al 1] show ?thesis
          by (simp add: s1 m_def)
      next
        case 2
        with am show ?thesis
          by (simp add: s1)
      qed
    qed
  qed
  then show ?thesis
    by (simp only: p1_def h1_def a_def st_def)
qed

lemma pool_inv_allocate:
  assumes "pool_inv p h rs" and "allocate k p h = Inr (a, p1, h1)"
  shows "pool_inv p1 h1 (rs @ [a])"
  using assms(2)
proof (cases rule: allocate_cases)
  case (pop n)
  with pool_inv_pop [OF assms(1) pop(1,2)] show ?thesis
    by simp
next
  case bump
  with pool_inv_bump [OF assms(1) bump(1,2)] show ?thesis
    by simp
next
  case (grow B rest pad)
  with pool_inv_grow [OF assms(1) grow(1,3,4)] show ?thesis
    by simp
qed

lemma pool_inv_run:
  assumes "pool_inv p h rs" and "owned cs rs p h" and "run cs rs p h = Inr (rs1, p1, h1)"
  shows "pool_inv p1 h1 rs1"
  using assms
proof (induction cs arbitrary: rs p h)
  case Nil
  then show ?case
    by simp
next
  case (Cons c cs)
  show ?case
  proof (cases c)
    case (Allocate k)
    with Cons.prems(3) obtain a p2 h2 where a: "allocate k p h = Inr (a, p2, h2)"
      and r: "run cs (rs @ [a]) p2 h2 = Inr (rs1, p1, h1)"
      by (auto split: sum.splits)
    from Cons.prems(2) Allocate a have o: "owned cs (rs @ [a]) p2 h2"
      by simp
    from Cons.IH [OF pool_inv_allocate [OF Cons.prems(1) a] o r] show ?thesis .
  next
    case (Deallocate k ptr)
    obtain p2 h2 where d: "deallocate k ptr p h = (p2, h2)"
      by (cases "deallocate k ptr p h")
    with Cons.prems(3) Deallocate have r: "run cs rs p2 h2 = Inr (rs1, p1, h1)"
      by simp
    from Cons.prems(2) Deallocate d have o: "ptr = 0 \<or> ptr \<in> set rs" "owned cs rs p2 h2"
      by simp_all
    from Cons.IH [OF pool_inv_deallocate [OF Cons.prems(1) o(1) d] o(2) r] show ?thesis .
  qed
qed

lemma init_Inr:
  assumes "init sz p0 = Inr p"
  shows "p = p0\<lparr>SlotSize := size_t_to_int sz, firstBlock := 0, curSlot := 0, freeList := 0,
               lastSlot := 0\<rparr>"
  using assms by (simp add: init_def split: if_splits)

lemma pool_inv_init:
  assumes "init sz p0 = Inr p" and "0 < slot_size p" and "2 * slot_size p + 7 \<le> block_size p"
    and "system_sane (block_size p) h"
  shows "pool_inv p h []"
proof (rule pool_invI)
  from assms(4) have h: "next_word h = Map.empty" "live h = []"
    "\<And>b. b \<in> set (fresh h) \<Longrightarrow> unat b + block_size p < 2 ^ 64" "apart (block_size p) (fresh h)"
    unfolding system_sane_def by blast+
  then have b: "blocks h = fresh h"
    by (simp add: blocks_def)
  show "unat b + block_size p < 2 ^ 64" if "b \<in> set (blocks h)" for b
    using that h(3) by (simp add: b)
  show "apart (block_size p) (blocks h)"
    using h(4) by (simp add: b)
  show "a \<in> set (blocks h) \<or> v = 0 \<or> v \<in> set []" if "next_word h a = Some v" for a v
    using that h(1) by simp
  show "freeList p = 0 \<or> freeList p \<in> set []" "cursor_ok p h"
    using init_Inr [OF assms(1)] by (simp_all add: cursor_ok_def)
  show "slot_size p dvd unat (curSlot p)"
    using init_Inr [OF assms(1)] by simp
qed (use assms in simp_all)

text \<open>
  Every address a pool hands out is the start of a slot that lies in one of its blocks,
  after the header word; in particular it is not null, which is what the reuse of a
  freed slot above asks of the address \<open>A\<close>.
\<close>

lemma run_inside:
  assumes "init sz p0 = Inr p" and "0 < slot_size p" and "2 * slot_size p + 7 \<le> block_size p"
    and "system_sane (block_size p) h" and "owned cs [] p h"
    and "run cs [] p h = Inr (rs, p1, h1)" and "a \<in> set rs"
  shows "a \<noteq> 0 \<and> inside p1 h1 a"
proof -
  from pool_inv_run [OF pool_inv_init [OF assms(1-4)] assms(5,6)] have "pool_inv p1 h1 rs" .
  from pool_invD(7) [OF this assms(7)] have "inside p1 h1 a" .
  moreover from this have "a \<noteq> 0"
    unfolding inside_def by auto
  ultimately show ?thesis
    by simp
qed

lemma init_example_pool: "init 16 (MemoryPool_ctor 4096) = Inr (example_pool 16)"
  "init 512 (MemoryPool_ctor 4096) = Inr (example_pool 512)"
  by (simp_all add: init_def MemoryPool_ctor_def example_pool_def size_t_to_int_def)

lemma sane_example: "system_sane 4096 example_heap"
  by (simp add: system_sane_def example_heap_def)

lemmas eval_allocate = allocate_def popFreeList_eq allocateNewBlock_def operator_new_def
  padPointer_def deallocate_eq int_to_size_t_def sizeof_Slot_def Let_def


subsection \<open>Alignment\<close>

text \<open>
  Sums of multiples of a divisor of \<open>2 ^ 64\<close> stay multiples when the addition wraps
  around, and a power of two that is the value of a 64-bit word divides \<open>2 ^ 64\<close>.
\<close>

lemma dvd_unat_add:
  fixes x y :: "64 word" and m :: nat
  assumes "m dvd 2 ^ 64" and "m dvd unat x" and "m dvd unat y"
  shows "m dvd unat (x + y)"
proof -
  have "unat (x + y) = (unat x + unat y) mod 2 ^ 64"
    by (simp add: unat_word_ariths)
  moreover from assms have "m dvd (unat x + unat y) mod 2 ^ 64"
    by (simp add: dvd_mod)
  ultimately show ?thesis
    by simp
qed

lemma power2_dvd_word:
  fixes n :: nat and x :: "64 word"
  assumes "unat x = 2 ^ n"
  shows "(2::nat) ^ n dvd 2 ^ 64"
proof -
  have "unat x < 2 ^ 64"
    using unsigned_less [of x] by simp
  with assms have "(2::nat) ^ n < 2 ^ 64"
    by simp
  then have "n < 64"
    by (simp only: power_strict_increasing_iff) 
  then have "n \<le> 64"
    by simp
  then show ?thesis
    by (rule le_imp_power_dvd)
qed

lemma aligned_allocate:
  assumes m: "slot_size p = 2 ^ n"
    and cur: "slot_size p dvd unat (curSlot p)"
    and rs: "\<forall>a\<in>R. slot_size p dvd unat a"
    and S: "S \<subseteq> R" "freeList p = 0 \<or> freeList p \<in> S"
      "\<forall>a\<in>S. \<forall>v. next_word h a = Some v \<longrightarrow> v = 0 \<or> v \<in> S"
    and al: "allocate k p h = Inr (a, p1, h1)"
  shows "slot_size p1 = slot_size p \<and> slot_size p dvd unat (curSlot p1) \<and> slot_size p dvd unat a
         \<and> (\<exists>S'. S' \<subseteq> insert a R \<and> (freeList p1 = 0 \<or> freeList p1 \<in> S')
               \<and> (\<forall>a\<in>S'. \<forall>v. next_word h1 a = Some v \<longrightarrow> v = 0 \<or> v \<in> S'))"
proof -
  define M where "M = slot_size p"
  have M64: "M dvd 2 ^ 64"
    unfolding M_def using power2_dvd_word [of "int_to_size_t (SlotSize p)" n] m
    by (simp add: slot_size_def)
  have M8: "8 dvd M \<or> M dvd 8"
    unfolding M_def m by (rule power2_dvd_8)
  have M0: "0 < M"
    unfolding M_def m by simp
  have step: "M dvd unat (sizeof_Slot * (int_to_size_t (SlotSize p) div sizeof_Slot))"
    using step_dvd [OF M8] by (simp add: unat_step M_def slot_size_def)
  from al show ?thesis
  proof (cases rule: allocate_cases)
    case (pop v)
    from pop(1) S(2) have in_S: "freeList p \<in> S"
      by simp
    with S(3) pop(2) have "v = 0 \<or> v \<in> S"
      by blast
    moreover from in_S S(1) rs have "slot_size p dvd unat a"
      unfolding pop(3) by blast
    moreover from S(1) have "S \<subseteq> insert a R"
      by blast
    ultimately show ?thesis
      using cur S(3) unfolding pop(4,5) by auto
  next
    case bump
    have "M dvd unat (curSlot p + sizeof_Slot * (int_to_size_t (SlotSize p) div sizeof_Slot))"
      using M64 cur step unfolding M_def [symmetric] by (rule dvd_unat_add)
    moreover have "{} \<subseteq> insert a R \<and> (freeList p1 = 0 \<or> freeList p1 \<in> {})
               \<and> (\<forall>a\<in>{}. \<forall>v. next_word h1 a = Some v \<longrightarrow> v = 0 \<or> v \<in> {})"
      unfolding bump(4) using bump(1) by simp
    ultimately show ?thesis
      using cur unfolding bump(3,4) M_def by (intro conjI exI [of _ "{}"]) simp_all
  next
    case (grow B rest pad)
    have nz: "int_to_size_t (SlotSize p) \<noteq> 0"
      using M0 by (auto simp add: M_def slot_size_def)
    from padPointer_nat [OF nz, of "B + sizeof_Slot"] grow(4)
    have pad: "unat pad = (if unat (B + sizeof_Slot) mod M = 0 then 0
                          else M - unat (B + sizeof_Slot) mod M)"
      by (simp add: M_def slot_size_def)
    have "unat (B + sizeof_Slot + pad) = (unat (B + sizeof_Slot) + unat pad) mod 2 ^ 64"
      by (simp add: unat_word_ariths)
    moreover have "M dvd unat (B + sizeof_Slot) + unat pad"
      unfolding pad by (rule pad_dvd [OF M0])
    ultimately have a: "M dvd unat (B + sizeof_Slot + pad)"
      using M64 by (simp add: dvd_mod)
    have "M dvd unat (B + sizeof_Slot + pad
        + sizeof_Slot * (int_to_size_t (SlotSize p) div sizeof_Slot))"
      using M64 a step by (rule dvd_unat_add)
    moreover have "{} \<subseteq> insert a R \<and> (freeList p1 = 0 \<or> freeList p1 \<in> {})
               \<and> (\<forall>a\<in>{}. \<forall>v. next_word h1 a = Some v \<longrightarrow> v = 0 \<or> v \<in> {})"
      unfolding grow(6) using grow(1) by simp
    ultimately show ?thesis
      using a unfolding grow(5,6) M_def by (intro conjI exI [of _ "{}"]) simp_all
  qed
qed

lemma aligned_deallocate:
  assumes S: "S \<subseteq> R" "freeList p = 0 \<or> freeList p \<in> S"
      "\<forall>a\<in>S. \<forall>v. next_word h a = Some v \<longrightarrow> v = 0 \<or> v \<in> S"
    and ptr: "ptr = 0 \<or> ptr \<in> R"
    and de: "deallocate k ptr p h = (p1, h1)"
  shows "slot_size p1 = slot_size p \<and> curSlot p1 = curSlot p
         \<and> (\<exists>S'. S' \<subseteq> R \<and> (freeList p1 = 0 \<or> freeList p1 \<in> S')
               \<and> (\<forall>a\<in>S'. \<forall>v. next_word h1 a = Some v \<longrightarrow> v = 0 \<or> v \<in> S'))"
proof (cases "ptr = 0")
  case True
  with de have "p1 = p" "h1 = h"
    by (simp_all add: deallocate_eq)
  with S show ?thesis
    by blast
next
  case False
  with de have e: "p1 = p\<lparr>freeList := ptr\<rparr>"
    "h1 = h\<lparr>next_word := (next_word h)(ptr \<mapsto> freeList p)\<rparr>"
    by (simp_all add: deallocate_eq)
  from False ptr S(1) have "insert ptr S \<subseteq> R"
    by blast
  moreover have "freeList p1 \<in> insert ptr S"
    by (simp add: e)
  moreover have "\<forall>a\<in>insert ptr S. \<forall>v. next_word h1 a = Some v \<longrightarrow> v = 0 \<or> v \<in> insert ptr S"
    using S(2,3) by (auto simp add: e)
  ultimately show ?thesis
    unfolding e(1) by (intro conjI exI [of _ "insert ptr S"]) simp_all
qed

lemma aligned_run:
  assumes "slot_size p = 2 ^ n"
    and "slot_size p dvd unat (curSlot p)"
    and "\<forall>a\<in>set rs. slot_size p dvd unat a"
    and "S \<subseteq> set rs" and "freeList p = 0 \<or> freeList p \<in> S"
    and "\<forall>a\<in>S. \<forall>v. next_word h a = Some v \<longrightarrow> v = 0 \<or> v \<in> S"
    and "owned cs rs p h" and "run cs rs p h = Inr (rs1, p1, h1)"
  shows "\<forall>a\<in>set rs1. slot_size p dvd unat a"
  using assms
proof (induction cs arbitrary: rs p h S)
  case Nil
  then show ?case
    by simp
next
  case (Cons c cs)
  show ?case
  proof (cases c)
    case (Allocate k)
    with Cons.prems(8) obtain a p2 h2 where al: "allocate k p h = Inr (a, p2, h2)"
      and run: "run cs (rs @ [a]) p2 h2 = Inr (rs1, p1, h1)"
      by (auto split: sum.splits)
    from Cons.prems(7) Allocate al have own: "owned cs (rs @ [a]) p2 h2"
      by simp
    from aligned_allocate [OF Cons.prems(1,2,3,4,5,6) al]
    obtain S' where same: "slot_size p2 = slot_size p"
      and cur: "slot_size p dvd unat (curSlot p2)" and a: "slot_size p dvd unat a"
      and S': "S' \<subseteq> insert a (set rs)" "freeList p2 = 0 \<or> freeList p2 \<in> S'"
        "\<forall>a\<in>S'. \<forall>v. next_word h2 a = Some v \<longrightarrow> v = 0 \<or> v \<in> S'"
      by blast
    have "\<forall>a\<in>set rs1. slot_size p2 dvd unat a"
    proof (rule Cons.IH [OF _ _ _ _ S'(2,3) own run])
      show "slot_size p2 = 2 ^ n"
        by (simp add: same Cons.prems(1))
      show "slot_size p2 dvd unat (curSlot p2)"
        by (simp add: same cur)
      show "\<forall>a\<in>set (rs @ [a]). slot_size p2 dvd unat a"
        using Cons.prems(3) a by (simp add: same)
      show "S' \<subseteq> set (rs @ [a])"
        using S'(1) by simp
    qed
    then show ?thesis
      by (simp add: same)
  next
    case (Deallocate k ptr)
    obtain p2 h2 where de: "deallocate k ptr p h = (p2, h2)"
      by (cases "deallocate k ptr p h")
    with Cons.prems(7,8) Deallocate have ptr: "ptr = 0 \<or> ptr \<in> set rs"
      and own: "owned cs rs p2 h2" and run: "run cs rs p2 h2 = Inr (rs1, p1, h1)"
      by simp_all
    from aligned_deallocate [OF Cons.prems(4,5,6) ptr de]
    obtain S' where same: "slot_size p2 = slot_size p" "curSlot p2 = curSlot p"
      and S': "S' \<subseteq> set rs" "freeList p2 = 0 \<or> freeList p2 \<in> S'"
        "\<forall>a\<in>S'. \<forall>v. next_word h2 a = Some v \<longrightarrow> v = 0 \<or> v \<in> S'"
      by blast
    have "\<forall>a\<in>set rs1. slot_size p2 dvd unat a"
    proof (rule Cons.IH [OF _ _ _ S' own run])
      show "slot_size p2 = 2 ^ n"
        by (simp add: same Cons.prems(1))
      show "slot_size p2 dvd unat (curSlot p2)"
        by (simp add: same Cons.prems(2))
      show "\<forall>a\<in>set rs. slot_size p2 dvd unat a"
        using Cons.prems(3) by (simp add: same)
    qed
    then show ?thesis
      by (simp add: same)
  qed
qed

text \<open>
  Claim C4. \<^verbatim>\<open>padPointer(p, align)\<close> is 0 when \<open>p mod align\<close> is 0 and
  \<open>align - p mod align\<close> otherwise, for every \<open>align\<close> that is not 0. For a pool
  initialized with a slot size that is a power of two (8 among them) and used by a caller
  that hands to \<open>deallocate\<close> only the null pointer or an address that \<open>allocate\<close> has
  returned: every address that \<open>allocate\<close> returns in a sequence of calls, from the
  cursor or from the free list, is a multiple of the slot size. Nothing is asked of the
  block size, of the addresses of the blocks or of the memory before the first call.
\<close>

theorem allocate_aligned:
  assumes "init sz p0 = Inr p" and "slot_size p = 2 ^ n"
    and "owned cs [] p h" and "run cs [] p h = Inr (rs, p1, h1)"
  shows "(\<forall>a\<in>set rs. a mod int_to_size_t (SlotSize p) = 0)
         \<and> (\<forall>d align. align \<noteq> 0 \<longrightarrow>
               padPointer d align = Inr (if d mod align = 0 then 0 else align - d mod align))"
proof (intro conjI ballI allI impI)
  fix a
  assume a: "a \<in> set rs"
  from init_Inr [OF assms(1)] have start: "curSlot p = 0" "freeList p = 0"
    by simp_all
  have "\<forall>a\<in>set rs. slot_size p dvd unat a"
    by (rule aligned_run [OF assms(2) _ _ _ _ _ assms(3,4), of "{}"]) (simp_all add: start)
  with a have "slot_size p dvd unat a"
    by blast
  then have "unat (a mod int_to_size_t (SlotSize p)) = 0"
    by (simp add: unat_mod slot_size_def)
  then show "a mod int_to_size_t (SlotSize p) = 0"
    by (simp only: unat_eq_0)
next
  fix d align :: size_t
  assume "align \<noteq> 0"
  then show "padPointer d align = Inr (if d mod align = 0 then 0 else align - d mod align)"
    by (rule padPointer_eq)
qed

text \<open>A pool of 16-byte slots: the first slot is padded from \<open>0x10008\<close> to \<open>0x10010\<close>,
  and the freed slot comes back.\<close>

theorem allocate_aligned_witness:
  "init 16 (MemoryPool_ctor 4096) = Inr (example_pool 16)
   \<and> slot_size (example_pool 16) = 2 ^ 4
   \<and> owned [Allocate 0, Allocate 1, Deallocate 2 0x10010, Allocate 0] [] (example_pool 16)
        example_heap
   \<and> run [Allocate 0, Allocate 1, Deallocate 2 0x10010, Allocate 0] [] (example_pool 16)
        example_heap =
       Inr ([0x10010, 0x10020, 0x10010],
            (example_pool 16)\<lparr>firstBlock := 0x10000, curSlot := 0x10030, lastSlot := 0x10FF1,
               mutexForBlock := 2\<rparr>,
            \<lparr>next_word = [0x10000 \<mapsto> 0, 0x10010 \<mapsto> 0], fresh = [0x20000],
             live = [(0x10000, 4096)]\<rparr>)
   \<and> (0x10010 :: addr) mod 16 = 0 \<and> (0x10020 :: addr) mod 16 = 0"
proof -
  let ?cs = "[Allocate 0, Allocate 1, Deallocate 2 0x10010, Allocate 0]"
  let ?p1 = "(example_pool 16)\<lparr>firstBlock := 0x10000, curSlot := 0x10030, lastSlot := 0x10FF1,
               mutexForBlock := 2\<rparr>"
  let ?h1 = "\<lparr>next_word = [0x10000 \<mapsto> 0, 0x10010 \<mapsto> 0], fresh = [0x20000],
             live = [(0x10000, 4096 :: size_t)]\<rparr>"
  have s: "slot_size (example_pool 16) = 2 ^ 4"
    by (simp add: slot_size_def example_pool_def int_to_size_t_def)
  have own: "owned ?cs [] (example_pool 16) example_heap"
    by (simp add: eval_allocate example_pool_def example_heap_def)
  have run: "run ?cs [] (example_pool 16) example_heap = Inr ([0x10010, 0x10020, 0x10010], ?p1, ?h1)"
    by (simp add: eval_allocate example_pool_def example_heap_def)
  from allocate_aligned [OF init_example_pool(1) s own run]
  have "\<forall>a\<in>set [0x10010, 0x10020, 0x10010]. a mod int_to_size_t (SlotSize (example_pool 16)) = 0"
    by (rule conjunct1)
  then have "(0x10010 :: addr) mod 16 = 0 \<and> (0x10020 :: addr) mod 16 = 0"
    by (simp add: example_pool_def int_to_size_t_def)
  with init_example_pool(1) s own run show ?thesis
    by simp
qed

subsection \<open>The cursor and the boundary\<close>

lemma unat_add_le:
  fixes x y :: "64 word"
  shows "unat (x + y) \<le> unat x + unat y"
  by (simp add: unat_word_ariths)

lemma pad_less:
  assumes "align \<noteq> 0" and "padPointer d align = Inr pad"
  shows "unat pad < unat align"
proof -
  from assms(1) have "0 < unat align"
    by (simp add: unat_gt_0)
  moreover from this have "0 < unat d mod unat align \<Longrightarrow> unat align - unat d mod unat align < unat align"
    by simp
  ultimately show ?thesis
    using padPointer_nat [OF assms(1), of d] assms(2) by (auto split: if_splits)
qed

lemma cursor_allocate:
  assumes bs: "2 * slot_size p + 7 \<le> block_size p"
    and fr: "\<forall>b\<in>set (fresh h). unat b + block_size p < 2 ^ 64"
    and cur: "unat (curSlot p) \<le> unat (lastSlot p) + slot_size p - 1"
    and last: "(curSlot p = 0 \<and> lastSlot p = 0)
               \<or> unat (lastSlot p) = unat (firstBlock p) + block_size p - slot_size p + 1"
    and al: "allocate k p h = Inr (a, p1, h1)"
  shows "slot_size p1 = slot_size p \<and> block_size p1 = block_size p
         \<and> (\<forall>b\<in>set (fresh h1). unat b + block_size p < 2 ^ 64)
         \<and> unat (curSlot p1) \<le> unat (lastSlot p1) + slot_size p - 1
         \<and> ((curSlot p1 = 0 \<and> lastSlot p1 = 0)
             \<or> unat (lastSlot p1) = unat (firstBlock p1) + block_size p - slot_size p + 1)"
proof -
  define M where "M = slot_size p"
  define N where "N = block_size p"
  define step where "step = sizeof_Slot * (int_to_size_t (SlotSize p) div sizeof_Slot)"
  have step: "unat step \<le> M"
    unfolding step_def M_def slot_size_def by (simp add: unat_step)
  note facts = bs fr cur last
  from al show ?thesis
  proof (cases rule: allocate_cases)
    case (pop v)
    with facts show ?thesis
      by simp
  next
    case bump
    from bump(2) have "unat (curSlot p) < unat (lastSlot p)"
      by (simp add: word_less_nat_alt)
    moreover have "unat (curSlot p + step) \<le> unat (curSlot p) + unat step"
      by (rule unat_add_le)
    ultimately have "unat (curSlot p + step) \<le> unat (lastSlot p) + M - 1"
      using step by simp
    moreover from bump(2) have "lastSlot p \<noteq> 0"
      by (auto simp add: word_less_nat_alt)
    ultimately show ?thesis
      using facts unfolding bump(4,5) M_def step_def by simp
  next
    case (grow B rest pad)
    from grow(4) have nz: "int_to_size_t (SlotSize p) \<noteq> 0"
      by (auto simp add: padPointer_def)
    then have m: "0 < slot_size p"
      by (simp add: slot_size_def unat_gt_0)
    from pad_less [OF nz grow(4)] have pad: "unat pad < M"
      by (simp add: M_def slot_size_def)
    from fr grow(3) have B: "unat B + N < 2 ^ 64"
      by (simp add: N_def)
    from fr grow(3) have rest: "\<forall>b\<in>set rest. unat b + block_size p < 2 ^ 64"
      by simp
    have MN: "0 < M" "2 * M + 7 \<le> N"
      using m bs by (simp_all add: M_def N_def)
    have u1: "unat (B + int_to_size_t (BlockSize p)) = unat B + N"
      using B by (simp add: unat_plus N_def block_size_def)
    have "unat (int_to_size_t (SlotSize p)) \<le> unat (B + int_to_size_t (BlockSize p))"
      using MN unfolding u1 by (simp add: M_def slot_size_def)
    then have u2: "unat (B + int_to_size_t (BlockSize p) - int_to_size_t (SlotSize p))
                = unat B + N - M"
      by (simp only: unat_minus u1) (simp add: M_def slot_size_def)
    have u3: "unat (B + int_to_size_t (BlockSize p) - int_to_size_t (SlotSize p) + 1)
                = unat B + N - M + 1"
      using MN B by (simp add: unat_plus u2)
    have "unat (B + sizeof_Slot + pad + step) \<le> unat (B + sizeof_Slot + pad) + unat step"
      by (rule unat_add_le)
    also have "unat (B + sizeof_Slot + pad) \<le> unat (B + sizeof_Slot) + unat pad"
      by (rule unat_add_le)
    also have "unat (B + sizeof_Slot) \<le> unat B + 8"
      using unat_add_le [of B sizeof_Slot] by (simp add: sizeof_Slot_def)
    finally have "unat (B + sizeof_Slot + pad + step) \<le> unat B + 8 + unat pad + unat step"
      by simp
    with pad step MN have c: "unat (B + sizeof_Slot + pad + step) \<le> unat B + N - M + 1 + M - 1"
      by simp
    show ?thesis
      using c u3 rest unfolding grow(6,7) step_def M_def N_def by simp
  qed
qed

lemma cursor_run:
  assumes "2 * slot_size p + 7 \<le> block_size p"
    and "\<forall>b\<in>set (fresh h). unat b + block_size p < 2 ^ 64"
    and "unat (curSlot p) \<le> unat (lastSlot p) + slot_size p - 1"
    and "(curSlot p = 0 \<and> lastSlot p = 0)
         \<or> unat (lastSlot p) = unat (firstBlock p) + block_size p - slot_size p + 1"
    and "run cs rs p h = Inr (rs1, p1, h1)"
  shows "unat (curSlot p1) \<le> unat (lastSlot p1) + slot_size p - 1
         \<and> ((curSlot p1 = 0 \<and> lastSlot p1 = 0)
             \<or> unat (lastSlot p1) = unat (firstBlock p1) + block_size p - slot_size p + 1)"
  using assms
proof (induction cs arbitrary: rs p h)
  case Nil
  then show ?case
    by simp
next
  case (Cons c cs)
  show ?case
  proof (cases c)
    case (Allocate k)
    with Cons.prems(5) obtain a p2 h2 where al: "allocate k p h = Inr (a, p2, h2)"
      and run: "run cs (rs @ [a]) p2 h2 = Inr (rs1, p1, h1)"
      by (auto split: sum.splits)
    from cursor_allocate [OF Cons.prems(1-4) al]
    have same: "slot_size p2 = slot_size p" "block_size p2 = block_size p"
      and fr: "\<forall>b\<in>set (fresh h2). unat b + block_size p < 2 ^ 64"
      and cur: "unat (curSlot p2) \<le> unat (lastSlot p2) + slot_size p - 1"
      and last: "(curSlot p2 = 0 \<and> lastSlot p2 = 0)
             \<or> unat (lastSlot p2) = unat (firstBlock p2) + block_size p - slot_size p + 1"
      by blast+
    from Cons.IH [OF _ _ _ _ run] Cons.prems(1) fr cur last show ?thesis
      unfolding same by blast
  next
    case (Deallocate k ptr)
    obtain p2 h2 where de: "deallocate k ptr p h = (p2, h2)"
      by (cases "deallocate k ptr p h")
    with Cons.prems(5) Deallocate have run: "run cs rs p2 h2 = Inr (rs1, p1, h1)"
      by simp
    from de have same: "slot_size p2 = slot_size p" "block_size p2 = block_size p"
      "curSlot p2 = curSlot p" "lastSlot p2 = lastSlot p" "firstBlock p2 = firstBlock p"
      "fresh h2 = fresh h"
      by (auto simp add: deallocate_eq split: if_splits)
    from Cons.IH [OF _ _ _ _ run] Cons.prems(1-4) show ?thesis
      unfolding same by blast
  qed
qed

text \<open>
  Claim C5, as the code has it. The boundary is the address of the last byte at which a
  slot may start, plus 1, and \<open>allocate\<close> takes a new block when the cursor has reached
  or passed it. For an initialized pool whose block holds two slots after padding (block
  size at least twice the slot size plus 7) and whose blocks do not wrap around the
  address space, after every sequence of calls the cursor is at most the boundary plus
  the slot size minus 1; the boundary is 0 before the first block and afterwards the
  address of the current block plus the block size minus the slot size plus 1, so that
  the bound is the end of the current block. On growth the cursor becomes the first
  address after the header word, padded to a multiple of the slot size, and the boundary
  becomes the block address plus the block size minus the slot size plus 1; with a slot
  size of 0 the padding divides by zero and there is no growth.
\<close>

theorem cursor_within_chunk:
  assumes "init sz p0 = Inr p" and "2 * slot_size p + 7 \<le> block_size p"
    and "\<forall>b\<in>set (fresh h). unat b + block_size p < 2 ^ 64"
    and "run cs [] p h = Inr (rs, p1, h1)"
  shows "unat (curSlot p1) \<le> unat (lastSlot p1) + slot_size p - 1
         \<and> ((curSlot p1 = 0 \<and> lastSlot p1 = 0)
             \<or> unat (lastSlot p1) = unat (firstBlock p1) + block_size p - slot_size p + 1)
         \<and> (\<forall>B rest. fresh h1 = B # rest \<longrightarrow>
               allocateNewBlock p1 h1 =
                 (if int_to_size_t (SlotSize p) = 0 then Inl DivisionByZero
                  else Inr (p1\<lparr>firstBlock := B,
                        curSlot := B + sizeof_Slot
                          + (if (B + sizeof_Slot) mod int_to_size_t (SlotSize p) = 0 then 0
                             else int_to_size_t (SlotSize p)
                                    - (B + sizeof_Slot) mod int_to_size_t (SlotSize p)),
                        lastSlot := B + int_to_size_t (BlockSize p)
                                      - int_to_size_t (SlotSize p) + 1\<rparr>,
                      h1\<lparr>fresh := rest, live := (B, int_to_size_t (BlockSize p)) # live h1,
                        next_word := (next_word h1)(B \<mapsto> firstBlock p1)\<rparr>)))"
proof -
  from init_Inr [OF assms(1)] have start: "curSlot p = 0" "lastSlot p = 0"
    by simp_all
  have "unat (curSlot p1) \<le> unat (lastSlot p1) + slot_size p - 1
         \<and> ((curSlot p1 = 0 \<and> lastSlot p1 = 0)
             \<or> unat (lastSlot p1) = unat (firstBlock p1) + block_size p - slot_size p + 1)"
    by (rule cursor_run [OF assms(2,3) _ _ assms(4)]) (simp_all add: start)
  moreover have "allocateNewBlock p1 h1 =
                 (if int_to_size_t (SlotSize p) = 0 then Inl DivisionByZero
                  else Inr (p1\<lparr>firstBlock := B,
                        curSlot := B + sizeof_Slot
                          + (if (B + sizeof_Slot) mod int_to_size_t (SlotSize p) = 0 then 0
                             else int_to_size_t (SlotSize p)
                                    - (B + sizeof_Slot) mod int_to_size_t (SlotSize p)),
                        lastSlot := B + int_to_size_t (BlockSize p)
                                      - int_to_size_t (SlotSize p) + 1\<rparr>,
                      h1\<lparr>fresh := rest, live := (B, int_to_size_t (BlockSize p)) # live h1,
                        next_word := (next_word h1)(B \<mapsto> firstBlock p1)\<rparr>))"
    if f: "fresh h1 = B # rest" for B rest
  proof (cases "int_to_size_t (SlotSize p) = 0")
    case True
    with run_sizes [OF assms(4)] have "int_to_size_t (SlotSize p1) = 0"
      by simp
    with f True show ?thesis
      by (simp add: allocateNewBlock_def operator_new_def padPointer_def)
  next
    case False
    with run_sizes [OF assms(4)] have "int_to_size_t (SlotSize p1) \<noteq> 0"
      by simp
    from allocateNewBlock_eq [OF this f] run_sizes [OF assms(4)] False show ?thesis
      by simp
  qed
  ultimately show ?thesis
    by blast
qed

text \<open>The pool of 512-byte slots and 4096-byte blocks, the last size class of the
  router: seven slots fit, and after the seventh allocation the cursor is at the end of
  the block.\<close>

theorem cursor_within_chunk_witness:
  "init 512 (MemoryPool_ctor 4096) = Inr (example_pool 512)
   \<and> 2 * slot_size (example_pool 512) + 7 \<le> block_size (example_pool 512)
   \<and> unat (0x10000 :: addr) + block_size (example_pool 512) < 2 ^ 64
   \<and> unat (0x20000 :: addr) + block_size (example_pool 512) < 2 ^ 64
   \<and> fresh example_heap = [0x10000, 0x20000]
   \<and> run [Allocate 0, Allocate 0, Allocate 0, Allocate 0, Allocate 0, Allocate 0, Allocate 0] []
        (example_pool 512) example_heap =
       Inr ([0x10200, 0x10400, 0x10600, 0x10800, 0x10A00, 0x10C00, 0x10E00],
            (example_pool 512)\<lparr>firstBlock := 0x10000, curSlot := 0x11000, lastSlot := 0x10E01,
               mutexForBlock := 7\<rparr>,
            \<lparr>next_word = [0x10000 \<mapsto> 0], fresh = [0x20000], live = [(0x10000, 4096)]\<rparr>)
   \<and> unat (0x11000 :: addr) \<le> unat (0x10E01 :: addr) + slot_size (example_pool 512) - 1
   \<and> unat (0x10E01 :: addr)
       = unat (0x10000 :: addr) + block_size (example_pool 512) - slot_size (example_pool 512) + 1
   \<and> allocateNewBlock
         ((example_pool 512)\<lparr>firstBlock := 0x10000, curSlot := 0x11000, lastSlot := 0x10E01,
            mutexForBlock := 7\<rparr>)
         \<lparr>next_word = [0x10000 \<mapsto> 0], fresh = [0x20000], live = [(0x10000, 4096)]\<rparr> =
       Inr ((example_pool 512)\<lparr>firstBlock := 0x20000, curSlot := 0x20200, lastSlot := 0x20E01,
              mutexForBlock := 7\<rparr>,
            \<lparr>next_word = [0x10000 \<mapsto> 0, 0x20000 \<mapsto> 0x10000], fresh = [],
             live = [(0x20000, 4096), (0x10000, 4096)]\<rparr>)"
proof -
  let ?cs = "[Allocate 0, Allocate 0, Allocate 0, Allocate 0, Allocate 0, Allocate 0, Allocate 0]"
  let ?p1 = "(example_pool 512)\<lparr>firstBlock := 0x10000, curSlot := 0x11000, lastSlot := 0x10E01,
               mutexForBlock := 7\<rparr>"
  let ?h1 = "\<lparr>next_word = [0x10000 \<mapsto> 0], fresh = [0x20000], live = [(0x10000, 4096 :: size_t)]\<rparr>"
  have s: "slot_size (example_pool 512) = 512" "block_size (example_pool 512) = 4096"
    by (simp_all add: slot_size_def block_size_def example_pool_def int_to_size_t_def)
  then have sz: "2 * slot_size (example_pool 512) + 7 \<le> block_size (example_pool 512)"
    by simp
  have fr: "\<forall>b\<in>set (fresh example_heap). unat b + block_size (example_pool 512) < 2 ^ 64"
    by (simp add: s example_heap_def)
  have run: "run ?cs [] (example_pool 512) example_heap =
      Inr ([0x10200, 0x10400, 0x10600, 0x10800, 0x10A00, 0x10C00, 0x10E00], ?p1, ?h1)"
    by (simp add: eval_allocate example_pool_def example_heap_def)
  have f: "fresh ?h1 = [0x20000]"
    by simp
  have nz: "\<not> (curSlot ?p1 = 0 \<and> lastSlot ?p1 = 0)"
    by simp
  from cursor_within_chunk [OF init_example_pool(2) sz fr run] f nz
  have "unat (curSlot ?p1) \<le> unat (lastSlot ?p1) + slot_size (example_pool 512) - 1"
    and "unat (lastSlot ?p1) = unat (firstBlock ?p1) + block_size (example_pool 512)
           - slot_size (example_pool 512) + 1"
    and "allocateNewBlock ?p1 ?h1 =
       (if int_to_size_t (SlotSize (example_pool 512)) = 0 then Inl DivisionByZero
        else Inr (?p1\<lparr>firstBlock := 0x20000,
              curSlot := 0x20000 + sizeof_Slot
                + (if (0x20000 + sizeof_Slot) mod int_to_size_t (SlotSize (example_pool 512)) = 0
                   then 0
                   else int_to_size_t (SlotSize (example_pool 512))
                          - (0x20000 + sizeof_Slot) mod int_to_size_t (SlotSize (example_pool 512))),
              lastSlot := 0x20000 + int_to_size_t (BlockSize (example_pool 512))
                            - int_to_size_t (SlotSize (example_pool 512)) + 1\<rparr>,
            ?h1\<lparr>fresh := [], live := (0x20000, int_to_size_t (BlockSize (example_pool 512))) # live ?h1,
              next_word := (next_word ?h1)(0x20000 \<mapsto> firstBlock ?p1)\<rparr>))"
    by blast+
  with init_example_pool(2) sz run show ?thesis
    by (simp add: slot_size_def block_size_def example_pool_def example_heap_def
        int_to_size_t_def sizeof_Slot_def)
qed

text \<open>There the cursor, \<open>0x11000\<close>, is above the boundary, \<open>0x10E01\<close>.\<close>

theorem cursor_boundary_counterexample:
  "init 512 (MemoryPool_ctor 4096) = Inr (example_pool 512)
   \<and> run [Allocate 0, Allocate 0, Allocate 0, Allocate 0, Allocate 0, Allocate 0, Allocate 0] []
        (example_pool 512) example_heap =
       Inr ([0x10200, 0x10400, 0x10600, 0x10800, 0x10A00, 0x10C00, 0x10E00],
            (example_pool 512)\<lparr>firstBlock := 0x10000, curSlot := 0x11000, lastSlot := 0x10E01,
               mutexForBlock := 7\<rparr>,
            \<lparr>next_word = [0x10000 \<mapsto> 0], fresh = [0x20000], live = [(0x10000, 4096)]\<rparr>)
   \<and> \<not> (0x11000 :: addr) \<le> 0x10E01"
  by (simp add: init_example_pool eval_allocate example_pool_def example_heap_def)

text \<open>The bound needs the room for two slots after the padding. With slots of 4096 bytes
  in blocks of 4096 bytes the first slot begins at \<open>0x11000\<close>, the end of the block, and the
  cursor, \<open>0x12000\<close>, is above the boundary, \<open>0x10001\<close>, plus the slot size minus 1.\<close>

lemma cursor_needs_room:
  "init 4096 (MemoryPool_ctor 4096) = Inr (example_pool 4096)
   \<and> slot_size (example_pool 4096) = 4096 \<and> block_size (example_pool 4096) = 4096
   \<and> run [Allocate 0] [] (example_pool 4096) example_heap =
       Inr ([0x11000],
            (example_pool 4096)\<lparr>firstBlock := 0x10000, curSlot := 0x12000, lastSlot := 0x10001,
               mutexForBlock := 1\<rparr>,
            \<lparr>next_word = [0x10000 \<mapsto> 0], fresh = [0x20000], live = [(0x10000, 4096)]\<rparr>)
   \<and> \<not> unat (0x12000 :: addr) \<le> unat (0x10001 :: addr) + slot_size (example_pool 4096) - 1"
  by (simp add: init_def MemoryPool_ctor_def size_t_to_int_def slot_size_def block_size_def
      eval_allocate example_pool_def example_heap_def)

subsection \<open>The table stays configured\<close>





subsection \<open>The regions handed out by the router\<close>






lemma apart_distinct:
  assumes "apart n bs" and "0 < n"
  shows "distinct bs"
  using assms by (induction bs) auto

lemma pool_ok_frame [simp]:
  "pool_ok n m (p\<lparr>freeList := v\<rparr>) G B = pool_ok n m p G B"
  "pool_ok n m (p\<lparr>mutexForBlock := k\<rparr>) G B = pool_ok n m p G B"
  by (simp_all add: pool_ok_def)






lemma apart_suffix: "apart n (xs @ ys) \<Longrightarrow> apart n ys"
  by (induction xs) auto





lemma set_pooled: "set (pooled us) \<subseteq> set us"
  by (auto simp add: pooled_def)






































end
